theory Spec2Isabelle
  imports Main
begin

section \<open>jl: a streaming extractor from JSON documents to delimited rows\<close>

text \<open>
  The development follows \<^verbatim>\<open>src/jl.c\<close>. Every \<^verbatim>\<open>die\<close>, \<^verbatim>\<open>abort\<close> and
  invalid memory access of the C program is a value of \<open>error\<close>; a function that can
  fail returns \<open>error + 'a\<close>.
\<close>

datatype error =
    UnexpectedCharacter char
  | ErrorMatchingLiteral string
  | NonTerminatedString string
  | ControlCharacterInString
  | NotAHexCharacter char
  | InvalidEscapeCharacter char
  | NoDigitFollowingMinusSign
  | NoDigitsAfterFraction
  | NoExponentDigits
  | UnexpectedTokenType
  | ExpectedArrayEnd
  | ExpectedObjectEnd
  | InvalidPattern
  | Abort
  | InvalidMemoryAccess
  | OutOfFuel

subsection \<open>Buffers and tables\<close>

text \<open>
  A \<^verbatim>\<open>Buf\<close> is \<^verbatim>\<open>{len, cap, str}\<close>. The capacity only drives reallocation, so a
  buffer is modelled by its contents: \<open>None\<close> is the zeroed buffer of \<^verbatim>\<open>xcalloc\<close>
  (\<^verbatim>\<open>str == NULL\<close>, \<^verbatim>\<open>len == 0\<close>), \<open>Some s\<close> an allocated buffer holding the
  NUL-terminated text \<open>s\<close>, with \<^verbatim>\<open>len\<close> the length of \<open>s\<close>.
\<close>

type_synonym Buf = "string option"

definition buf_len :: "Buf \<Rightarrow> nat" where
  "buf_len b = (case b of None \<Rightarrow> 0 | Some s \<Rightarrow> length s)"

definition buf_str :: "Buf \<Rightarrow> string" where
  "buf_str b = (case b of None \<Rightarrow> [] | Some s \<Rightarrow> s)"

text \<open>
  A \<^verbatim>\<open>Table\<close>: \<^verbatim>\<open>nrows\<close> is the length of \<open>rows\<close> (the completed rows), and
  \<^verbatim>\<open>rowcap\<close> is left out with the other capacities.
\<close>

record Table =
  ncols :: nat
  rows :: "Buf list list"
  newrow :: "Buf list"

definition nrows :: "Table \<Rightarrow> nat" where
  "nrows t = length (rows t)"

text \<open>\<^verbatim>\<open>xcalloc(t->ncols, sizeof(*t->newrow))\<close>: a row of zeroed buffers.\<close>

definition calloc_row :: "nat \<Rightarrow> Buf list" where
  "calloc_row n = replicate n None"

text \<open>
  \<^verbatim>\<open>add_value\<close> resets the buffer when it holds text and copies \<open>val\<close> when \<open>val\<close> is
  not empty. The caller guarantees \<open>column < ncols\<close> (see \<open>run_collect_op\<close>).
\<close>

definition add_value :: "Table \<Rightarrow> nat \<Rightarrow> string \<Rightarrow> Table" where
  "add_value t column val =
     (let b = newrow t ! column;
          b1 = (if buf_len b > 0 then Some [] else b);
          b2 = (if length val > 0 then Some val else b1)
      in t\<lparr>newrow := (newrow t)[column := b2]\<rparr>)"

text \<open>The first loop of \<^verbatim>\<open>add_row\<close>: does a cell with index below \<open>ncols\<close> hold text?\<close>

definition hasval :: "Table \<Rightarrow> bool" where
  "hasval t = list_ex (\<lambda>i. buf_len (newrow t ! i) > 0) [0..<ncols t]"

definition add_row :: "Table \<Rightarrow> Table" where
  "add_row t =
     (if hasval t
      then t\<lparr>rows := rows t @ [newrow t], newrow := calloc_row (ncols t)\<rparr>
      else t)"

subsection \<open>Emission\<close>

text \<open>\<^verbatim>\<open>size_t\<close> arithmetic wraps around; the model takes a 64-bit \<^verbatim>\<open>size_t\<close>.\<close>

definition SIZE_MOD :: nat where
  "SIZE_MOD = 2 ^ 64"

text \<open>The counting loop of \<^verbatim>\<open>flush_tables\<close>, from \<open>hasrows\<close> and \<open>nrows\<close> so far.\<close>

fun flush_count :: "Table list \<Rightarrow> bool \<Rightarrow> nat \<Rightarrow> bool \<times> nat" where
  "flush_count [] hasrows n = (hasrows, n)"
| "flush_count (t # ts) hasrows n =
     (if nrows t > 0 then flush_count ts True ((n * nrows t) mod SIZE_MOD)
      else flush_count ts hasrows n)"

text \<open>The inner loop over \<open>j\<close>: \<^verbatim>\<open>rowindex[j] = i % tab->nrows\<close> for a table with rows.\<close>

fun set_rowindex :: "nat \<Rightarrow> Table list \<Rightarrow> nat list \<Rightarrow> nat list" where
  "set_rowindex i (t # ts) (r # rs) =
     (if nrows t > 0 then i mod nrows t else r) # set_rowindex i ts rs"
| "set_rowindex i _ rs = rs"

text \<open>
  \<^verbatim>\<open>emit_row\<close>: the cells of table \<open>i\<close>, each after the field separator unless it is the
  first cell of the line; a table without rows gives empty cells.
\<close>

definition emit_cell :: "string \<Rightarrow> nat \<Rightarrow> Buf list option \<Rightarrow> nat \<Rightarrow> string" where
  "emit_cell fieldsep i row j =
     (if i > 0 \<or> j > 0 then fieldsep else []) @
     (case row of None \<Rightarrow> [] | Some r \<Rightarrow> buf_str (r ! j))"

definition emit_table :: "string \<Rightarrow> nat \<Rightarrow> Table \<Rightarrow> nat \<Rightarrow> string" where
  "emit_table fieldsep i t ri =
     (let row = (if nrows t > 0 then Some (rows t ! ri) else None)
      in concat (map (emit_cell fieldsep i row) [0..<ncols t]))"

definition emit_row :: "string \<Rightarrow> Table list \<Rightarrow> nat list \<Rightarrow> string" where
  "emit_row fieldsep ts rowindex =
     concat (map (\<lambda>i. emit_table fieldsep i (ts ! i) (rowindex ! i)) [0..<length ts])
     @ [CHR 0x0A]"

text \<open>One pass of the emitting loop, on the row indices and the output so far.\<close>

definition flush_step :: "string \<Rightarrow> Table list \<Rightarrow> nat list \<times> string \<Rightarrow> nat \<Rightarrow> nat list \<times> string" where
  "flush_step fieldsep ts st i =
     (let rowindex = set_rowindex i ts (fst st)
      in (rowindex, snd st @ emit_row fieldsep ts rowindex))"

definition reset_table :: "Table \<Rightarrow> Table" where
  "reset_table t = t\<lparr>rows := []\<rparr>"

definition flush_tables :: "string \<Rightarrow> Table list \<Rightarrow> string \<Rightarrow> Table list \<times> string" where
  "flush_tables fieldsep ts out =
     (case flush_count ts False 1 of
        (hasrows, n) \<Rightarrow>
          if \<not> hasrows then (ts, out)
          else (map reset_table ts,
                snd (foldl (flush_step fieldsep ts) (replicate (length ts) 0, out) [0..<n])))"

subsection \<open>The character source\<close>

datatype TokenType =
    T_BEGINOBJECT | T_ENDOBJECT | T_PAIRSEP | T_MEMBERSEP | T_BEGINARRAY | T_ENDARRAY
  | T_STRING | T_NUMBER | T_BOOL | T_NULL | T_EOF

record Token =
  ttype :: TokenType
  ttext :: string

text \<open>
  The lexer state: \<open>input\<close> is what is left of the file (the \<^verbatim>\<open>BUFSIZ\<close> chunks of
  \<^verbatim>\<open>lexer.buf\<close> are not modelled, nor is a failing \<^verbatim>\<open>fread\<close>), \<open>unread\<close> the
  pushed-back character (NUL when there is none) and \<open>peek\<close> the cached token.
  The text buffer \<^verbatim>\<open>lexer.text\<close> is emptied by every fresh \<^verbatim>\<open>next_token\<close>, so the
  functions reading a token take it and return it.
\<close>

record Lexer =
  input :: string
  unread :: char
  peek :: "Token option"

definition NUL :: char where
  "NUL = CHR 0x00"

definition read_char :: "Lexer \<Rightarrow> char \<times> Lexer" where
  "read_char lx =
     (if unread lx \<noteq> NUL then (unread lx, lx\<lparr>unread := NUL\<rparr>)
      else (case input lx of
              [] \<Rightarrow> (NUL, lx)
            | c # cs \<Rightarrow> (c, lx\<lparr>input := cs\<rparr>)))"

definition unread_char :: "char \<Rightarrow> Lexer \<Rightarrow> Lexer" where
  "unread_char c lx = lx\<lparr>unread := c\<rparr>"

text \<open>The number of characters the source can still deliver.\<close>

definition remaining :: "Lexer \<Rightarrow> nat" where
  "remaining lx = length (input lx) + (if unread lx = NUL then 0 else 1)"

definition is_ws :: "char \<Rightarrow> bool" where
  "is_ws c = (c \<in> set [CHR '' '', CHR 0x09, CHR 0x0A, CHR 0x0D])"

definition is_digit :: "char \<Rightarrow> bool" where
  "is_digit c = (c \<in> set ''0123456789'')"

definition is_1to9 :: "char \<Rightarrow> bool" where
  "is_1to9 c = (c \<in> set ''123456789'')"

definition isxdigit :: "char \<Rightarrow> bool" where
  "isxdigit c = (c \<in> set ''0123456789abcdefABCDEF'')"

definition is_valid_escape :: "char \<Rightarrow> bool" where
  "is_valid_escape c = (c \<in> set [CHR 0x22, CHR 0x5C, CHR ''/'', CHR ''b'', CHR ''f'',
                                  CHR ''n'', CHR ''r'', CHR ''t''])"

lemma read_char_remaining:
  "read_char lx = (c, lx') \<Longrightarrow> c \<noteq> NUL \<Longrightarrow> remaining lx' < remaining lx"
  by (auto simp: read_char_def remaining_def split: if_splits list.splits)

lemma read_char_remaining_sym:
  "(c, lx') = read_char lx \<Longrightarrow> c \<noteq> NUL \<Longrightarrow> remaining lx' < remaining lx"
  by (rule read_char_remaining [OF sym])

lemma is_ws_not_NUL: "is_ws c \<Longrightarrow> c \<noteq> NUL"
  by (auto simp: is_ws_def NUL_def)

lemma read_char_remaining_le:
  "read_char lx = (c, lx') \<Longrightarrow> remaining lx' \<le> remaining lx"
  by (auto simp: read_char_def remaining_def split: if_splits list.splits)

subsection \<open>The lexer\<close>

text \<open>The whitespace loop of \<^verbatim>\<open>read_token\<close>.\<close>

function skip_ws :: "Lexer \<Rightarrow> char \<times> Lexer" where
  "skip_ws lx =
     (case read_char lx of
        (c, lx1) \<Rightarrow> if is_ws c then skip_ws lx1 else (c, lx1))"
  by pat_completeness auto
termination
proof (relation "measure remaining", goal_cases)
  case 1
  show ?case by simp
next
  case 2
  then show ?case
    using read_char_remaining_sym is_ws_not_NUL by (metis in_measure)
qed

declare skip_ws.simps [simp del]

fun read_literal_loop :: "string \<Rightarrow> string \<Rightarrow> Lexer \<Rightarrow> error + Lexer" where
  "read_literal_loop v [] lx = Inr lx"
| "read_literal_loop v (p # ps) lx =
     (case read_char lx of
        (c, lx1) \<Rightarrow> if c \<noteq> p then Inl (ErrorMatchingLiteral v)
                    else read_literal_loop v ps lx1)"

definition read_literal :: "string \<Rightarrow> nat \<Rightarrow> Lexer \<Rightarrow> error + (string \<times> Lexer)" where
  "read_literal v offset lx =
     (case read_literal_loop v (drop offset v) lx of
        Inl e \<Rightarrow> Inl e
      | Inr lx1 \<Rightarrow> Inr (v, lx1))"

text \<open>The four hexadecimal digits after \<^verbatim>\<open>\u\<close>.\<close>

fun read_hex :: "nat \<Rightarrow> string \<Rightarrow> Lexer \<Rightarrow> error + (string \<times> Lexer)" where
  "read_hex 0 b lx = Inr (b, lx)"
| "read_hex (Suc n) b lx =
     (case read_char lx of
        (c, lx1) \<Rightarrow> if isxdigit c then read_hex n (b @ [c]) lx1
                    else Inl (NotAHexCharacter c))"

definition after_slash :: "string \<Rightarrow> Lexer \<Rightarrow> error + (string \<times> Lexer)" where
  "after_slash b lx =
     (case read_char lx of
        (c, lx1) \<Rightarrow>
          if is_valid_escape c then Inr (b @ [c], lx1)
          else if c = CHR ''u'' then read_hex 4 (b @ [CHR ''u'']) lx1
          else Inl (InvalidEscapeCharacter c))"

lemma read_hex_remaining:
  "read_hex n b lx = Inr (b', lx') \<Longrightarrow> remaining lx' \<le> remaining lx"
proof (induction n arbitrary: b lx)
  case 0
  then show ?case by simp
next
  case (Suc n)
  obtain c lx1 where rc: "read_char lx = (c, lx1)" by (cases "read_char lx")
  with Suc.prems have "read_hex n (b @ [c]) lx1 = Inr (b', lx')"
    by (simp split: if_splits)
  then have "remaining lx' \<le> remaining lx1" by (rule Suc.IH)
  with read_char_remaining_le [OF rc] show ?case by simp
qed

lemma after_slash_remaining:
  assumes "after_slash b lx = Inr (b', lx')"
  shows "remaining lx' \<le> remaining lx"
proof -
  obtain c lx1 where rc: "read_char lx = (c, lx1)" by (cases "read_char lx")
  have "remaining lx' \<le> remaining lx1"
    using assms rc read_hex_remaining
    by (auto simp: after_slash_def split: if_splits)
  with read_char_remaining_le [OF rc] show ?thesis by simp
qed

function after_quote :: "string \<Rightarrow> Lexer \<Rightarrow> error + (string \<times> Lexer)" where
  "after_quote b lx =
     (case read_char lx of
        (c, lx1) \<Rightarrow>
          if c = NUL then Inl (NonTerminatedString b)
          else if c = CHR 0x22 then Inr (b, lx1)
          else if c = CHR 0x5C then
            (case after_slash (b @ [CHR 0x5C]) lx1 of
               Inl e \<Rightarrow> Inl e
             | Inr (b2, lx2) \<Rightarrow> after_quote b2 lx2)
          else if (of_char c :: nat) \<le> 0x1f then Inl ControlCharacterInString
          else after_quote (b @ [c]) lx1)"
  by pat_completeness auto
termination
proof (relation "measure (\<lambda>(b, lx). remaining lx)", goal_cases)
  case 1
  show ?case by simp
next
  case 2
  then show ?case
    using read_char_remaining_sym after_slash_remaining
    by (metis (no_types, lifting) case_prod_conv in_measure le_less_trans)
next
  case 3
  then show ?case
    using read_char_remaining_sym by (metis (no_types, lifting) case_prod_conv in_measure)
qed

declare after_quote.simps [simp del]

text \<open>
  The counter \<^verbatim>\<open>n\<close> of \<^verbatim>\<open>append_digits\<close> is a C \<^verbatim>\<open>int\<close>: 32 bits, signed. C leaves
  its overflow undefined; the model takes the wrap-around of two's complement, so that
  \<^verbatim>\<open>n++\<close> at \<open>2 ^ 31 - 1\<close> gives \<open>- (2 ^ 31)\<close>.
\<close>

definition int_wrap :: "int \<Rightarrow> int" where
  "int_wrap x = (x + 2 ^ 31) mod 2 ^ 32 - 2 ^ 31"

text \<open>\<^verbatim>\<open>append_digits\<close> returns the number of digits it appended, as the counter has it.\<close>

function append_digits :: "int \<Rightarrow> string \<Rightarrow> Lexer \<Rightarrow> int \<times> string \<times> Lexer" where
  "append_digits n b lx =
     (case read_char lx of
        (c, lx1) \<Rightarrow>
          if c = NUL then (n, b, lx1)
          else if is_digit c then append_digits (int_wrap (n + 1)) (b @ [c]) lx1
          else (n, b, unread_char c lx1))"
  by pat_completeness auto
termination
proof (relation "measure (\<lambda>(n, b, lx). remaining lx)", goal_cases)
  case 1
  show ?case by simp
next
  case 2
  then show ?case
    using read_char_remaining_sym by (metis (no_types, lifting) case_prod_conv in_measure)
qed

declare append_digits.simps [simp del]

definition after_exp :: "string \<Rightarrow> Lexer \<Rightarrow> error + (string \<times> Lexer)" where
  "after_exp b lx =
     (case read_char lx of
        (c, lx1) \<Rightarrow>
          if c = NUL then Inl NoExponentDigits
          else if c = CHR ''+'' \<or> c = CHR ''-'' then
            (case append_digits 0 (b @ [c]) lx1 of
               (n, b2, lx2) \<Rightarrow> if n = 0 then Inl NoExponentDigits else Inr (b2, lx2))
          else if is_digit c then
            (case append_digits 0 (b @ [c]) lx1 of
               (n, b2, lx2) \<Rightarrow> Inr (b2, lx2))
          else Inl NoExponentDigits)"

definition after_frac :: "string \<Rightarrow> Lexer \<Rightarrow> error + (string \<times> Lexer)" where
  "after_frac b lx =
     (case append_digits 0 b lx of
        (n, b1, lx1) \<Rightarrow>
          if n < 1 then Inl NoDigitsAfterFraction
          else (case read_char lx1 of
                  (c, lx2) \<Rightarrow>
                    if c = NUL then Inr (b1, lx2)
                    else if c = CHR ''e'' \<or> c = CHR ''E'' then after_exp (b1 @ [c]) lx2
                    else Inr (b1, unread_char c lx2)))"

function after_1to9 :: "string \<Rightarrow> Lexer \<Rightarrow> error + (string \<times> Lexer)" where
  "after_1to9 b lx =
     (case read_char lx of
        (c, lx1) \<Rightarrow>
          if c = NUL then Inr (b, lx1)
          else if c = CHR ''.'' then after_frac (b @ [c]) lx1
          else if is_digit c then after_1to9 (b @ [c]) lx1
          else if c = CHR ''e'' \<or> c = CHR ''E'' then after_exp (b @ [c]) lx1
          else Inr (b, unread_char c lx1))"
  by pat_completeness auto
termination
proof (relation "measure (\<lambda>(b, lx). remaining lx)", goal_cases)
  case 1
  show ?case by simp
next
  case 2
  then show ?case
    using read_char_remaining_sym by (metis (no_types, lifting) case_prod_conv in_measure)
qed

declare after_1to9.simps [simp del]

definition after_0 :: "string \<Rightarrow> Lexer \<Rightarrow> error + (string \<times> Lexer)" where
  "after_0 b lx =
     (case read_char lx of
        (c, lx1) \<Rightarrow>
          if c = CHR ''.'' then after_frac (b @ [CHR ''.'']) lx1
          else if c = CHR ''e'' \<or> c = CHR ''E'' then after_exp (b @ [c]) lx1
          else if c \<noteq> NUL then Inr (b, unread_char c lx1)
          else Inr (b, lx1))"

definition after_minus :: "string \<Rightarrow> Lexer \<Rightarrow> error + (string \<times> Lexer)" where
  "after_minus b lx =
     (case read_char lx of
        (c, lx1) \<Rightarrow>
          if c = CHR ''0'' then after_0 (b @ [c]) lx1
          else if is_1to9 c then after_1to9 (b @ [c]) lx1
          else Inl NoDigitFollowingMinusSign)"

text \<open>
  \<^verbatim>\<open>read_token\<close> with the text buffer empty, as \<^verbatim>\<open>next_token\<close> leaves it. The token's
  text is the literal the C code assigns, or else the text buffer.
\<close>

definition mk_token :: "TokenType \<Rightarrow> error + (string \<times> Lexer) \<Rightarrow> error + (Token \<times> Lexer)" where
  "mk_token ty r =
     (case r of
        Inl e \<Rightarrow> Inl e
      | Inr (b, lx) \<Rightarrow> Inr (\<lparr>ttype = ty, ttext = b\<rparr>, lx))"

definition read_token :: "Lexer \<Rightarrow> error + (Token \<times> Lexer)" where
  "read_token lx =
     (case skip_ws lx of
        (c, lx1) \<Rightarrow>
          if c = NUL then mk_token T_EOF (Inr ([], lx1))
          else if c = CHR ''{'' then mk_token T_BEGINOBJECT (Inr (''{'', lx1))
          else if c = CHR ''}'' then mk_token T_ENDOBJECT (Inr (''}'', lx1))
          else if c = CHR '':'' then mk_token T_PAIRSEP (Inr ('':'', lx1))
          else if c = CHR '','' then mk_token T_MEMBERSEP (Inr ('','', lx1))
          else if c = CHR ''['' then mk_token T_BEGINARRAY (Inr (''['', lx1))
          else if c = CHR '']'' then mk_token T_ENDARRAY (Inr ('']'', lx1))
          else if c = CHR ''t'' then mk_token T_BOOL (read_literal ''true'' 1 lx1)
          else if c = CHR ''f'' then mk_token T_BOOL (read_literal ''false'' 1 lx1)
          else if c = CHR ''n'' then mk_token T_NULL (read_literal ''null'' 1 lx1)
          else if c = CHR 0x22 then mk_token T_STRING (after_quote [] lx1)
          else if c = CHR ''-'' then mk_token T_NUMBER (after_minus [c] lx1)
          else if c = CHR ''0'' then mk_token T_NUMBER (after_0 [c] lx1)
          else if is_1to9 c then mk_token T_NUMBER (after_1to9 [c] lx1)
          else Inl (UnexpectedCharacter c))"

definition next_token :: "Lexer \<Rightarrow> error + (Token \<times> Lexer)" where
  "next_token lx =
     (case peek lx of
        Some t \<Rightarrow> Inr (t, lx\<lparr>peek := None\<rparr>)
      | None \<Rightarrow> read_token lx)"

definition peek_token :: "Lexer \<Rightarrow> error + (Token \<times> Lexer)" where
  "peek_token lx =
     (case peek lx of
        Some t \<Rightarrow> Inr (t, lx)
      | None \<Rightarrow>
          (case next_token lx of
             Inl e \<Rightarrow> Inl e
           | Inr (t, lx1) \<Rightarrow> Inr (t, lx1\<lparr>peek := Some t\<rparr>)))"

definition is_literal :: "TokenType \<Rightarrow> bool" where
  "is_literal ty = (ty = T_NULL \<or> ty = T_BOOL \<or> ty = T_NUMBER \<or> ty = T_STRING)"

definition accept :: "TokenType \<Rightarrow> Lexer \<Rightarrow> error + Lexer" where
  "accept ty lx =
     (case next_token lx of
        Inl e \<Rightarrow> Inl e
      | Inr (t, lx1) \<Rightarrow> if ttype t \<noteq> ty then Inl UnexpectedTokenType else Inr lx1)"

definition init_lexer :: "string \<Rightarrow> Lexer" where
  "init_lexer s = \<lparr>input = s, unread = NUL, peek = None\<rparr>"

subsection \<open>The pattern compiler\<close>

text \<open>
  An operator. \<^verbatim>\<open>Table *\<close> is the index of the table in the registry \<^verbatim>\<open>tables\<close>;
  the linked list of \<^verbatim>\<open>Prop\<close> is a list of names and operators, head first.
\<close>

datatype Op =
    ArrayOp "nat option" Op bool
  | ObjectOp "nat option" "(string \<times> Op) list" bool
  | CollectOp nat nat

fun is_collect :: "Op \<Rightarrow> bool" where
  "is_collect (CollectOp ti col) = True"
| "is_collect _ = False"

text \<open>\<^verbatim>\<open>*p->pos\<close>: the pattern is a C string, so past its last character it reads NUL.\<close>

definition cur :: "string \<Rightarrow> char" where
  "cur pos = (case pos of [] \<Rightarrow> NUL | c # cs \<Rightarrow> c)"

definition new_table :: "Table list \<Rightarrow> nat \<times> Table list" where
  "new_table ts = (length ts, ts @ [\<lparr>ncols = 0, rows = [], newrow = []\<rparr>])"

text \<open>\<^verbatim>\<open>op->column = t->ncols++\<close>, on table \<open>ti\<close> of the registry.\<close>

definition new_collect_op :: "nat \<Rightarrow> Table list \<Rightarrow> Op \<times> Table list" where
  "new_collect_op ti ts =
     (CollectOp ti (ncols (ts ! ti)), ts[ti := (ts ! ti)\<lparr>ncols := ncols (ts ! ti) + 1\<rparr>])"

text \<open>
  The scan of a quoted property name, after the opening quote: the name and the
  position after the closing quote (or the end of the pattern).
\<close>

fun quoted_name :: "bool \<Rightarrow> string \<Rightarrow> string \<times> string" where
  "quoted_name esc [] = ([], [])"
| "quoted_name esc (c # cs) =
     (if c = CHR 0x22 then
        (if \<not> esc then ([], cs)
         else case quoted_name False cs of (nm, pos) \<Rightarrow> (c # nm, pos))
      else if c = CHR 0x5C then
        (case quoted_name (\<not> esc) cs of (nm, pos) \<Rightarrow> (c # nm, pos))
      else
        (case quoted_name False cs of (nm, pos) \<Rightarrow> (c # nm, pos)))"

definition is_name_end :: "char \<Rightarrow> bool" where
  "is_name_end c = (c \<in> set '',[]{}'')"

text \<open>
  \<^verbatim>\<open>parse_property\<close>: the name of the property added to the object (\<open>None\<close> for the
  \<^verbatim>\<open>NULL\<close> returned on an empty bare name) and the new position. The C code ends the
  name by writing NUL into the pattern, at a place the parser has already passed; the
  model returns the name instead.
\<close>

definition parse_property :: "string \<Rightarrow> string option \<times> string" where
  "parse_property pos =
     (if cur pos = CHR 0x22 then
        (case quoted_name False (tl pos) of (nm, pos1) \<Rightarrow> (Some nm, pos1))
      else
        (let nm = takeWhile (\<lambda>c. \<not> is_name_end c) pos;
             pos1 = dropWhile (\<lambda>c. \<not> is_name_end c) pos
         in if nm = [] then (None, pos1) else (Some nm, pos1)))"

text \<open>
  \<^verbatim>\<open>parse_array\<close> and \<^verbatim>\<open>parse_object\<close> on the position and the registry. A returned
  \<^verbatim>\<open>NULL\<close> is \<open>Inl InvalidPattern\<close>: every caller hands it on, up to \<^verbatim>\<open>main\<close>, which
  dies with that message. \<open>parse_props\<close> is one pass of the \<^verbatim>\<open>do\<close> loop of
  \<^verbatim>\<open>parse_object\<close>, on the object's table and properties so far. The first argument
  bounds the depth of the calls; \<open>parse_pattern\<close> gives as much as the pattern is long.
\<close>

fun parse_array :: "nat \<Rightarrow> string \<Rightarrow> Table list \<Rightarrow> error + (Op \<times> string \<times> Table list)"
and parse_object :: "nat \<Rightarrow> string \<Rightarrow> Table list \<Rightarrow> error + (Op \<times> string \<times> Table list)"
and parse_props :: "nat \<Rightarrow> string \<Rightarrow> Table list \<Rightarrow> nat option \<Rightarrow> (string \<times> Op) list
                     \<Rightarrow> error + (Op \<times> string \<times> Table list)"
where
  "parse_array 0 pos ts = Inl OutOfFuel"
| "parse_array (Suc n) pos ts =
     (if cur pos \<noteq> CHR ''['' then Inl InvalidPattern
      else
        let pos1 = tl pos in
        (case (if cur pos1 = CHR ''*'' then
                (case new_table ts of
                   (ti, ts1) \<Rightarrow>
                     (case new_collect_op ti ts1 of
                        (cop, ts2) \<Rightarrow> Inr (Some ti, cop, tl pos1, ts2)))
              else if cur pos1 = CHR ''['' then
                (case parse_array n pos1 ts of
                   Inl e \<Rightarrow> Inl e
                 | Inr (nxt, pos2, ts2) \<Rightarrow> Inr (None, nxt, pos2, ts2))
              else if cur pos1 = CHR ''{'' then
                (case parse_object n pos1 ts of
                   Inl e \<Rightarrow> Inl e
                 | Inr (nxt, pos2, ts2) \<Rightarrow> Inr (None, nxt, pos2, ts2))
              else Inl InvalidPattern) of
          Inl e \<Rightarrow> Inl e
        | Inr (tab, nxt, pos2, ts2) \<Rightarrow>
            if cur pos2 = NUL then Inr (ArrayOp tab nxt False, pos2, ts2)
            else if cur pos2 = CHR '']'' then Inr (ArrayOp tab nxt False, tl pos2, ts2)
            else Inl InvalidPattern))"
| "parse_object 0 pos ts = Inl OutOfFuel"
| "parse_object (Suc n) pos ts =
     (if cur pos \<noteq> CHR ''{'' then Inl InvalidPattern
      else parse_props n pos ts None [])"
| "parse_props 0 pos ts tab props = Inl OutOfFuel"
| "parse_props (Suc n) pos ts tab props =
     (case parse_property (tl pos) of
        (prop, pos1) \<Rightarrow>
          (case (if cur pos1 = CHR '','' \<or> cur pos1 = CHR ''}'' \<or> cur pos1 = NUL then
                  (case prop of
                     None \<Rightarrow> Inl InvalidPattern
                   | Some nm \<Rightarrow>
                       (case (case tab of
                                None \<Rightarrow> new_table ts
                              | Some ti \<Rightarrow> (ti, ts)) of
                          (ti, ts1) \<Rightarrow>
                            (case new_collect_op ti ts1 of
                               (cop, ts2) \<Rightarrow> Inr (nm, Some ti, cop, pos1, ts2))))
                else if cur pos1 = CHR ''{'' then
                  (case prop of
                     None \<Rightarrow> Inl InvalidMemoryAccess
                   | Some nm \<Rightarrow>
                       (case parse_object n pos1 ts of
                          Inl e \<Rightarrow> Inl e
                        | Inr (sub, pos2, ts2) \<Rightarrow> Inr (nm, tab, sub, pos2, ts2)))
                else if cur pos1 = CHR ''['' then
                  (case prop of
                     None \<Rightarrow> Inl InvalidMemoryAccess
                   | Some nm \<Rightarrow>
                       (case parse_array n pos1 ts of
                          Inl e \<Rightarrow> Inl e
                        | Inr (sub, pos2, ts2) \<Rightarrow> Inr (nm, tab, sub, pos2, ts2)))
                else Inl InvalidPattern) of
            Inl e \<Rightarrow> Inl e
          | Inr (nm, tab1, sub, pos2, ts2) \<Rightarrow>
              (let props1 = (nm, sub) # props; c = cur pos2 in
               if c = CHR '','' then parse_props n pos2 ts2 tab1 props1
               else if c \<noteq> CHR ''}'' \<and> c \<noteq> NUL then Inl InvalidPattern
               else if props1 = [] then Inl InvalidPattern
               else Inr (ObjectOp tab1 props1 False,
                         if c = CHR ''}'' then tl pos2 else pos2, ts2))))"

text \<open>
  \<^verbatim>\<open>parse_pattern\<close>: the operator tree and the registry, every table with its pending
  row allocated. The pattern is the C string \<^verbatim>\<open>argv[argi]\<close>, which ends at its first
  NUL.
\<close>

definition init_table :: "Table \<Rightarrow> Table" where
  "init_table t = t\<lparr>newrow := calloc_row (ncols t)\<rparr>"

definition parse_pattern :: "string \<Rightarrow> error + (Op \<times> Table list)" where
  "parse_pattern pat =
     (let pos = takeWhile (\<lambda>c. c \<noteq> NUL) pat in
      case (if cur pos = CHR ''['' then parse_array (Suc (length pos)) pos []
            else if cur pos = CHR ''{'' then parse_object (Suc (length pos)) pos []
            else Inl InvalidPattern) of
        Inl e \<Rightarrow> Inl e
      | Inr (op, pos1, ts) \<Rightarrow> Inr (op, map init_table ts))"

subsection \<open>Root selection\<close>

text \<open>
  \<^verbatim>\<open>find_root\<close> walks down from the top operator and sets \<^verbatim>\<open>isroot\<close> on one node: the
  result is the tree with the flag set, or \<open>None\<close> where the C code returns false. An
  object without a property would be a read through \<^verbatim>\<open>NULL\<close>.
\<close>

fun find_root :: "Op \<Rightarrow> error + Op option" where
  "find_root (ArrayOp tab nxt r) =
     (if is_collect nxt then Inr (Some (ArrayOp tab nxt True))
      else (case find_root nxt of
             Inl e \<Rightarrow> Inl e
           | Inr None \<Rightarrow> Inr None
           | Inr (Some nxt1) \<Rightarrow> Inr (Some (ArrayOp tab nxt1 r))))"
| "find_root (ObjectOp tab [] r) = Inl InvalidMemoryAccess"
| "find_root (ObjectOp tab ((nm, sub) # rest) r) =
     (if rest \<noteq> [] \<or> is_collect sub then Inr (Some (ObjectOp tab ((nm, sub) # rest) True))
      else (case find_root sub of
             Inl e \<Rightarrow> Inl e
           | Inr None \<Rightarrow> Inr None
           | Inr (Some sub1) \<Rightarrow> Inr (Some (ObjectOp tab ((nm, sub1) # rest) r))))"
| "find_root (CollectOp ti col) = Inr None"

subsection \<open>The runtime\<close>

text \<open>
  Skipping a value only needs the lexer. \<open>skip_array_loop\<close> and \<open>skip_object_loop\<close> are
  the \<^verbatim>\<open>do\<close> loops of \<^verbatim>\<open>skip_array\<close> and \<^verbatim>\<open>skip_object\<close>. The first argument
  bounds the number of nested calls and loop passes; running out of it is
  \<open>Inl OutOfFuel\<close>, which no C run produces.
\<close>

fun skip_value :: "nat \<Rightarrow> Lexer \<Rightarrow> error + Lexer"
and skip_array :: "nat \<Rightarrow> Lexer \<Rightarrow> error + Lexer"
and skip_array_loop :: "nat \<Rightarrow> Lexer \<Rightarrow> error + Lexer"
and skip_object :: "nat \<Rightarrow> Lexer \<Rightarrow> error + Lexer"
and skip_object_loop :: "nat \<Rightarrow> Lexer \<Rightarrow> error + Lexer"
where
  "skip_value 0 lx = Inl OutOfFuel"
| "skip_value (Suc n) lx =
     (case peek_token lx of
        Inl e \<Rightarrow> Inl e
      | Inr (t, lx1) \<Rightarrow>
          if ttype t = T_BEGINARRAY then skip_array n lx1
          else if ttype t = T_BEGINOBJECT then skip_object n lx1
          else if \<not> is_literal (ttype t) then Inl UnexpectedTokenType
          else (case next_token lx1 of
                  Inl e \<Rightarrow> Inl e
                | Inr (t1, lx2) \<Rightarrow> Inr lx2))"
| "skip_array 0 lx = Inl OutOfFuel"
| "skip_array (Suc n) lx =
     (case accept T_BEGINARRAY lx of
        Inl e \<Rightarrow> Inl e
      | Inr lx1 \<Rightarrow>
          (case peek_token lx1 of
             Inl e \<Rightarrow> Inl e
           | Inr (t, lx2) \<Rightarrow>
               if ttype t = T_ENDARRAY then
                 (case next_token lx2 of
                    Inl e \<Rightarrow> Inl e
                  | Inr (t1, lx3) \<Rightarrow> Inr lx3)
               else skip_array_loop n lx2))"
| "skip_array_loop 0 lx = Inl OutOfFuel"
| "skip_array_loop (Suc n) lx =
     (case skip_value n lx of
        Inl e \<Rightarrow> Inl e
      | Inr lx1 \<Rightarrow>
          (case next_token lx1 of
             Inl e \<Rightarrow> Inl e
           | Inr (t, lx2) \<Rightarrow>
               if ttype t = T_MEMBERSEP then skip_array_loop n lx2
               else if ttype t \<noteq> T_ENDARRAY then Inl ExpectedArrayEnd
               else Inr lx2))"
| "skip_object 0 lx = Inl OutOfFuel"
| "skip_object (Suc n) lx =
     (case accept T_BEGINOBJECT lx of
        Inl e \<Rightarrow> Inl e
      | Inr lx1 \<Rightarrow>
          (case peek_token lx1 of
             Inl e \<Rightarrow> Inl e
           | Inr (t, lx2) \<Rightarrow>
               if ttype t = T_ENDOBJECT then
                 (case next_token lx2 of
                    Inl e \<Rightarrow> Inl e
                  | Inr (t1, lx3) \<Rightarrow> Inr lx3)
               else skip_object_loop n lx2))"
| "skip_object_loop 0 lx = Inl OutOfFuel"
| "skip_object_loop (Suc n) lx =
     (case accept T_STRING lx of
        Inl e \<Rightarrow> Inl e
      | Inr lx1 \<Rightarrow>
          (case accept T_PAIRSEP lx1 of
             Inl e \<Rightarrow> Inl e
           | Inr lx2 \<Rightarrow>
               (case skip_value n lx2 of
                  Inl e \<Rightarrow> Inl e
                | Inr lx3 \<Rightarrow>
                    (case next_token lx3 of
                       Inl e \<Rightarrow> Inl e
                     | Inr (t, lx4) \<Rightarrow>
                         if ttype t = T_MEMBERSEP then skip_object_loop n lx4
                         else if ttype t \<noteq> T_ENDOBJECT then Inl ExpectedObjectEnd
                         else Inr lx4))))"

text \<open>The process state: the lexer, the table registry and what was written to stdout.\<close>

record State =
  lexer :: Lexer
  tables :: "Table list"
  out :: string

text \<open>\<^verbatim>\<open>if (op->op.table) add_row(op->op.table)\<close>\<close>

definition add_row_of :: "nat option \<Rightarrow> State \<Rightarrow> State" where
  "add_row_of tab st =
     (case tab of
        None \<Rightarrow> st
      | Some ti \<Rightarrow> st\<lparr>tables := (tables st)[ti := add_row (tables st ! ti)]\<rparr>)"

text \<open>\<^verbatim>\<open>if (op->isroot) flush_tables()\<close>\<close>

definition flush_if :: "bool \<Rightarrow> string \<Rightarrow> State \<Rightarrow> State" where
  "flush_if isroot fieldsep st =
     (if isroot then
        (case flush_tables fieldsep (tables st) (out st) of
           (ts, out1) \<Rightarrow> st\<lparr>tables := ts, out := out1\<rparr>)
      else st)"

definition skip_value_st :: "nat \<Rightarrow> State \<Rightarrow> error + State" where
  "skip_value_st n st =
     (case skip_value n (lexer st) of
        Inl e \<Rightarrow> Inl e
      | Inr lx \<Rightarrow> Inr (st\<lparr>lexer := lx\<rparr>))"

text \<open>
  \<^verbatim>\<open>run_collect_op\<close> on table \<open>ti\<close> and column \<open>col\<close>. A table or a column outside the
  registry would be an invalid access in C.
\<close>

definition run_collect_op :: "nat \<Rightarrow> nat \<Rightarrow> nat \<Rightarrow> State \<Rightarrow> error + State" where
  "run_collect_op n ti col st =
     (case peek_token (lexer st) of
        Inl e \<Rightarrow> Inl e
      | Inr (t, lx1) \<Rightarrow>
          if ttype t = T_BEGINARRAY then
            (case skip_array n lx1 of
               Inl e \<Rightarrow> Inl e
             | Inr lx2 \<Rightarrow> Inr (st\<lparr>lexer := lx2\<rparr>))
          else if ttype t = T_BEGINOBJECT then
            (case skip_object n lx1 of
               Inl e \<Rightarrow> Inl e
             | Inr lx2 \<Rightarrow> Inr (st\<lparr>lexer := lx2\<rparr>))
          else if \<not> is_literal (ttype t) then Inl UnexpectedTokenType
          else if \<not> (ti < length (tables st) \<and> col < length (newrow (tables st ! ti)))
            then Inl InvalidMemoryAccess
          else
            (let ts = (tables st)[ti := add_value (tables st ! ti) col (ttext t)] in
             case next_token lx1 of
               Inl e \<Rightarrow> Inl e
             | Inr (t1, lx2) \<Rightarrow> Inr (st\<lparr>lexer := lx2, tables := ts\<rparr>)))"

text \<open>
  \<^verbatim>\<open>run_op\<close> with \<^verbatim>\<open>run_array_op\<close> and \<^verbatim>\<open>run_object_op\<close> as its cases.
  \<open>run_array_loop\<close> is the \<^verbatim>\<open>do\<close> loop of \<^verbatim>\<open>run_array_op\<close>; \<open>run_object_loop\<close> is the
  \<^verbatim>\<open>while\<close> loop of \<^verbatim>\<open>run_object_op\<close> on the current token \<open>t\<close>, and returns the token
  the loop ends on.
\<close>

fun run_op :: "nat \<Rightarrow> string \<Rightarrow> Op \<Rightarrow> State \<Rightarrow> error + State"
and run_array_loop :: "nat \<Rightarrow> string \<Rightarrow> nat option \<Rightarrow> Op \<Rightarrow> State \<Rightarrow> error + State"
and run_object_loop :: "nat \<Rightarrow> string \<Rightarrow> (string \<times> Op) list \<Rightarrow> Token \<Rightarrow> State
                         \<Rightarrow> error + (Token \<times> State)"
where
  "run_op 0 fieldsep op st = Inl OutOfFuel"
| "run_op (Suc n) fieldsep (ArrayOp tab nxt isroot) st =
     (case peek_token (lexer st) of
        Inl e \<Rightarrow> Inl e
      | Inr (t, lx1) \<Rightarrow>
          if ttype t = T_BEGINARRAY then
            (case accept T_BEGINARRAY lx1 of
               Inl e \<Rightarrow> Inl e
             | Inr lx2 \<Rightarrow>
                 (case peek_token lx2 of
                    Inl e \<Rightarrow> Inl e
                  | Inr (t1, lx3) \<Rightarrow>
                      if ttype t1 = T_ENDARRAY then
                        (case next_token lx3 of
                           Inl e \<Rightarrow> Inl e
                         | Inr (t2, lx4) \<Rightarrow> Inr (st\<lparr>lexer := lx4\<rparr>))
                      else
                        (case run_array_loop n fieldsep tab nxt (st\<lparr>lexer := lx3\<rparr>) of
                           Inl e \<Rightarrow> Inl e
                         | Inr st1 \<Rightarrow>
                             Inr (flush_if isroot fieldsep (add_row_of tab st1)))))
          else skip_value_st n (st\<lparr>lexer := lx1\<rparr>))"
| "run_op (Suc n) fieldsep (ObjectOp tab props isroot) st =
     (case peek_token (lexer st) of
        Inl e \<Rightarrow> Inl e
      | Inr (t, lx1) \<Rightarrow>
          if ttype t \<noteq> T_BEGINOBJECT then skip_value_st n (st\<lparr>lexer := lx1\<rparr>)
          else
            (case accept T_BEGINOBJECT lx1 of
               Inl e \<Rightarrow> Inl e
             | Inr lx2 \<Rightarrow>
                 (case next_token lx2 of
                    Inl e \<Rightarrow> Inl e
                  | Inr (t1, lx3) \<Rightarrow>
                      (case run_object_loop n fieldsep props t1 (st\<lparr>lexer := lx3\<rparr>) of
                         Inl e \<Rightarrow> Inl e
                       | Inr (t2, st1) \<Rightarrow>
                           if ttype t2 \<noteq> T_ENDOBJECT then Inl ExpectedObjectEnd
                           else Inr (flush_if isroot fieldsep (add_row_of tab st1))))))"
| "run_op (Suc n) fieldsep (CollectOp ti col) st = run_collect_op n ti col st"
| "run_array_loop 0 fieldsep tab nxt st = Inl OutOfFuel"
| "run_array_loop (Suc n) fieldsep tab nxt st =
     (case run_op n fieldsep nxt st of
        Inl e \<Rightarrow> Inl e
      | Inr st1 \<Rightarrow>
          (let st2 = add_row_of tab st1 in
           case next_token (lexer st2) of
             Inl e \<Rightarrow> Inl e
           | Inr (t, lx1) \<Rightarrow>
               if ttype t = T_MEMBERSEP then
                 run_array_loop n fieldsep tab nxt (st2\<lparr>lexer := lx1\<rparr>)
               else if ttype t \<noteq> T_ENDARRAY then Inl ExpectedArrayEnd
               else Inr (st2\<lparr>lexer := lx1\<rparr>)))"
| "run_object_loop 0 fieldsep props t st = Inl OutOfFuel"
| "run_object_loop (Suc n) fieldsep props t st =
     (if ttype t \<noteq> T_STRING then Inr (t, st)
      else
        (case accept T_PAIRSEP (lexer st) of
           Inl e \<Rightarrow> Inl e
         | Inr lx1 \<Rightarrow>
             (case (case map_of props (ttext t) of
                      Some sub \<Rightarrow> run_op n fieldsep sub (st\<lparr>lexer := lx1\<rparr>)
                    | None \<Rightarrow> skip_value_st n (st\<lparr>lexer := lx1\<rparr>)) of
                Inl e \<Rightarrow> Inl e
              | Inr st1 \<Rightarrow>
                  (case next_token (lexer st1) of
                     Inl e \<Rightarrow> Inl e
                   | Inr (t1, lx2) \<Rightarrow>
                       if ttype t1 \<noteq> T_MEMBERSEP then Inr (t1, st1\<lparr>lexer := lx2\<rparr>)
                       else
                         (case next_token lx2 of
                            Inl e \<Rightarrow> Inl e
                          | Inr (t2, lx3) \<Rightarrow>
                              run_object_loop n fieldsep props t2 (st1\<lparr>lexer := lx3\<rparr>))))))"

text \<open>
  \<^verbatim>\<open>main\<close> on one input stream (stdin): compile the pattern, select the root, then run
  the top operator until the next token is \<^verbatim>\<open>T_EOF\<close>. The result is what was written
  to stdout.
\<close>

fun main_loop :: "nat \<Rightarrow> string \<Rightarrow> Op \<Rightarrow> State \<Rightarrow> error + State" where
  "main_loop 0 fieldsep head st = Inl OutOfFuel"
| "main_loop (Suc n) fieldsep head st =
     (case run_op n fieldsep head st of
        Inl e \<Rightarrow> Inl e
      | Inr st1 \<Rightarrow>
          (case peek_token (lexer st1) of
             Inl e \<Rightarrow> Inl e
           | Inr (t, lx1) \<Rightarrow>
               if ttype t \<noteq> T_EOF then main_loop n fieldsep head (st1\<lparr>lexer := lx1\<rparr>)
               else Inr (st1\<lparr>lexer := lx1\<rparr>)))"

definition init_state :: "Table list \<Rightarrow> string \<Rightarrow> State" where
  "init_state ts s = \<lparr>lexer = init_lexer s, tables = ts, out = []\<rparr>"

definition jl :: "nat \<Rightarrow> string \<Rightarrow> string \<Rightarrow> string \<Rightarrow> error + string" where
  "jl n fieldsep pat s =
     (case parse_pattern pat of
        Inl e \<Rightarrow> Inl e
      | Inr (head, ts) \<Rightarrow>
          (case find_root head of
             Inl e \<Rightarrow> Inl e
           | Inr None \<Rightarrow> Inl Abort
           | Inr (Some head1) \<Rightarrow>
               (case main_loop n fieldsep head1 (init_state ts s) of
                  Inl e \<Rightarrow> Inl e
                | Inr st \<Rightarrow> Inr (out st))))"

subsection \<open>Invariants of a table\<close>

text \<open>
  A completed row has as many cells as the table has columns, and one of them holds
  text; the pending row has as many cells as the table has columns.
\<close>

definition row_ok :: "nat \<Rightarrow> Buf list \<Rightarrow> bool" where
  "row_ok n r = (length r = n \<and> list_ex (\<lambda>b. buf_len b > 0) r)"

definition table_inv :: "Table \<Rightarrow> bool" where
  "table_inv t = (length (newrow t) = ncols t \<and> list_all (row_ok (ncols t)) (rows t))"

definition t_pending :: Table where
  "t_pending = \<lparr>ncols = 2, rows = [[Some ''a'', None]], newrow = [None, Some ''x'']\<rparr>"

subsection \<open>The Cartesian product of the tables\<close>

text \<open>
  The number of lines of a flush as the specification gives it, whether any table has a
  completed row, the row index of every table on line \<open>i\<close>, and the first \<open>n\<close> lines.
  \<open>rowindex_ok\<close> is the loop invariant of the emitting loop: a table without rows keeps
  index 0.
\<close>

definition row_product :: "Table list \<Rightarrow> nat" where
  "row_product ts = prod_list (map (\<lambda>t. max 1 (nrows t)) ts)"

definition has_rows :: "Table list \<Rightarrow> bool" where
  "has_rows ts = list_ex (\<lambda>t. nrows t > 0) ts"

definition row_indices :: "nat \<Rightarrow> Table list \<Rightarrow> nat list" where
  "row_indices i ts = map (\<lambda>t. i mod max 1 (nrows t)) ts"

definition product_lines :: "string \<Rightarrow> Table list \<Rightarrow> nat \<Rightarrow> string" where
  "product_lines fieldsep ts n =
     concat (map (\<lambda>i. emit_row fieldsep ts (row_indices i ts)) [0..<n])"

definition two_rows :: Table where
  "two_rows = \<lparr>ncols = 1, rows = [[Some ''x''], [Some ''y'']], newrow = [None]\<rparr>"

definition tables64 :: "Table list" where
  "tables64 = replicate 64 two_rows"

definition rowindex_ok :: "Table list \<Rightarrow> nat list \<Rightarrow> bool" where
  "rowindex_ok ts ri = (length ri = length ts \<and> (\<forall>j < length ts. nrows (ts ! j) = 0 \<longrightarrow> ri ! j = 0))"

subsection \<open>The scenarios of the specification\<close>

definition TAB :: char where "TAB = CHR 0x09"
definition LF :: char where "LF = CHR 0x0A"

definition s4_pattern :: string where
  "s4_pattern = ''[{id,vals[*]}]''"

definition s4_document :: string where
  "s4_document = ''[{\"id\":\"a\",\"vals\":[1,2]},{\"id\":\"b\",\"vals\":[3]}]''"

definition s2_pattern :: string where
  "s2_pattern = ''{a,b}''"

definition s2_document :: string where
  "s2_document = ''{\"a\":1,\"b\":2}''"

subsection \<open>Strings in the input\<close>

text \<open>
  What the character source will still deliver: the pushed-back character, if there is
  one, and then the input.
\<close>

definition stream :: "Lexer \<Rightarrow> string" where
  "stream lx = (if unread lx = NUL then input lx else unread lx # input lx)"

definition QUOTE :: char where "QUOTE = CHR 0x22"
definition BACKSLASH :: char where "BACKSLASH = CHR 0x5C"

text \<open>A string with the escapes \<^verbatim>\<open>\"\<close>, \<^verbatim>\<open>\u0041\<close> and \<^verbatim>\<open>\n\<close>.\<close>

definition escaped_text :: string where
  "escaped_text = ''a'' @ [BACKSLASH, QUOTE] @ ''b'' @ [BACKSLASH] @ ''u0041'' @ [BACKSLASH] @ ''n''"

definition one_column :: Table where
  "one_column = \<lparr>ncols = 1, rows = [], newrow = [None]\<rparr>"

text \<open>
  A string body is what may stand between the quotes of a string: no control character
  and no end of the stream; a backslash is followed by one of the eight simple escape
  characters, or by \<^verbatim>\<open>u\<close> and four hexadecimal digits; a quote only occurs after a
  backslash. \<open>string_token s\<close> is the token of the string with body \<open>s\<close>.
\<close>

fun string_body :: "string \<Rightarrow> bool" where
  "string_body [] = True"
| "string_body (c # cs) =
     (if c = BACKSLASH then
        (case cs of
           [] \<Rightarrow> False
         | e # r \<Rightarrow>
             if is_valid_escape e then string_body r
             else e = CHR ''u'' \<and> 4 \<le> length r \<and> list_all isxdigit (take 4 r)
                  \<and> string_body (drop 4 r))
      else c \<noteq> QUOTE \<and> c \<noteq> NUL \<and> \<not> (of_char c :: nat) \<le> 0x1f \<and> string_body cs)"

definition string_token :: "string \<Rightarrow> Token" where
  "string_token s = \<lparr>ttype = T_STRING, ttext = s\<rparr>"

text \<open>
  Two families of documents. \<open>string_array s ss\<close> is the array \<^verbatim>\<open>["s","s1",...,"sk"]\<close> of
  the strings with bodies \<open>s # ss\<close>, and \<open>lines_of\<close> gives one line for every body that is
  not empty. \<open>object_ab s s'\<close> is the object \<^verbatim>\<open>{"a":"s","b":"s'"}\<close>, and \<open>row_ab\<close> is its line:
  the two cells with the field separator between them, or nothing when both are empty.
\<close>

fun elements :: "string \<Rightarrow> string list \<Rightarrow> string" where
  "elements s [] = QUOTE # s @ [QUOTE, CHR '']'']"
| "elements s (s' # ss) = QUOTE # s @ QUOTE # CHR '','' # elements s' ss"

definition string_array :: "string \<Rightarrow> string list \<Rightarrow> string" where
  "string_array s ss = CHR ''['' # elements s ss"

definition lines_of :: "string list \<Rightarrow> string" where
  "lines_of ss = concat (map (\<lambda>s. s @ [LF]) (filter (\<lambda>s. s \<noteq> []) ss))"

definition object_ab :: "string \<Rightarrow> string \<Rightarrow> string" where
  "object_ab s s' =
     CHR ''{'' # QUOTE # CHR ''a'' # QUOTE # CHR '':'' # QUOTE # s @ QUOTE # CHR '','' #
     QUOTE # CHR ''b'' # QUOTE # CHR '':'' # QUOTE # s' @ [QUOTE, CHR ''}'']"

definition row_ab :: "string \<Rightarrow> string \<Rightarrow> string \<Rightarrow> string" where
  "row_ab fieldsep s s' = (if s = [] \<and> s' = [] then [] else s @ fieldsep @ s' @ [LF])"

text \<open>
  The tables of these runs: the table of pattern \<^verbatim>\<open>[*]\<close> with its completed rows, the
  table of pattern \<^verbatim>\<open>{a,b}\<close> with its pending row, and the cell \<^verbatim>\<open>add_value\<close> makes of a
  text in a zeroed buffer.
\<close>

definition column_of :: "string list \<Rightarrow> Table" where
  "column_of ss = \<lparr>ncols = 1, rows = map (\<lambda>s. [Some s]) ss, newrow = [None]\<rparr>"

definition two_columns :: "Buf \<Rightarrow> Buf \<Rightarrow> Table" where
  "two_columns a b = \<lparr>ncols = 2, rows = [], newrow = [a, b]\<rparr>"

definition cell :: "string \<Rightarrow> Buf" where
  "cell s = (if s = [] then None else Some s)"

subsection \<open>Compiled operator trees\<close>

text \<open>
  What the compiler builds: every object has a property, and the tree ends in Collect
  nodes. \<open>parsed_ok\<close> says that a result of the parser, if it is a tree, is such a tree and
  not a Collect node itself.
\<close>

fun well_formed :: "Op \<Rightarrow> bool" where
  "well_formed (ArrayOp tab nxt r) = well_formed nxt"
| "well_formed (ObjectOp tab props r) =
     (props \<noteq> [] \<and> (\<forall>p \<in> set props. well_formed (snd p)))"
| "well_formed (CollectOp ti col) = True"

definition parsed_ok :: "error + (Op \<times> string \<times> Table list) \<Rightarrow> bool" where
  "parsed_ok r = (case r of Inl e \<Rightarrow> True | Inr (op, pos, ts) \<Rightarrow> well_formed op \<and> \<not> is_collect op)"

text \<open>
  For the bound on the depth of the parser: a result leaves less of the pattern than
  there was, and \<open>fuel_ok n\<close> says that a bound of \<open>n\<close> (one more for \<open>parse_array\<close> and
  \<open>parse_object\<close>) is enough for a position of length up to \<open>n\<close>.
\<close>

definition shorter :: "string \<Rightarrow> error + (Op \<times> string \<times> Table list) \<Rightarrow> bool" where
  "shorter pos r = (case r of Inl e \<Rightarrow> True | Inr (op, pos1, ts) \<Rightarrow> length pos1 < length pos)"

definition fuel_ok :: "nat \<Rightarrow> bool" where
  "fuel_ok n =
     ((\<forall>pos ts. length pos \<le> n \<longrightarrow> parse_array (Suc n) pos ts \<noteq> Inl OutOfFuel)
      \<and> (\<forall>pos ts. length pos \<le> n \<longrightarrow> parse_object (Suc n) pos ts \<noteq> Inl OutOfFuel)
      \<and> (\<forall>pos ts tab props. pos \<noteq> [] \<and> length pos \<le> n
            \<longrightarrow> parse_props n pos ts tab props \<noteq> Inl OutOfFuel))"

subsection \<open>The end of the input\<close>

text \<open>The token \<^verbatim>\<open>read_token\<close> makes at the end of the stream.\<close>

definition eof_token :: Token where
  "eof_token = \<lparr>ttype = T_EOF, ttext = []\<rparr>"

subsection \<open>Arrays of empty strings\<close>

text \<open>
  \<open>empty_strings k\<close> is the document \<^verbatim>\<open>["","",...,""]\<close> with \<open>k + 1\<close> elements;
  \<open>at_input s\<close> is the lexer before \<open>s\<close>, with nothing pushed back and no token cached.
\<close>

fun empties :: "nat \<Rightarrow> string" where
  "empties 0 = [QUOTE, QUOTE, CHR '']'']"
| "empties (Suc k) = [QUOTE, QUOTE, CHR '',''] @ empties k"

definition empty_strings :: "nat \<Rightarrow> string" where
  "empty_strings k = CHR ''['' # empties k"

abbreviation at_input :: "string \<Rightarrow> Lexer" where
  "at_input s \<equiv> \<lparr>input = s, unread = NUL, peek = None\<rparr>"

definition empty_string_token :: Token where
  "empty_string_token = \<lparr>ttype = T_STRING, ttext = []\<rparr>"

subsection \<open>Documents and their tokens\<close>

text \<open>
  A document value, and the tokens the lexer gives for it: \<open>lex_tokens lx ts\<close> is the lexer
  after \<^verbatim>\<open>next_token\<close> has returned the tokens \<open>ts\<close>, one after the other, from \<open>lx\<close>. The
  text of a number or string is the lexeme, so any lexeme the lexer accepts can stand
  in a value.
\<close>

datatype json =
    JNull
  | JBool bool
  | JNumber string
  | JString string
  | JArray "json list"
  | JObject "(string \<times> json) list"

definition punct :: "TokenType \<Rightarrow> string \<Rightarrow> Token" where
  "punct ty s = \<lparr>ttype = ty, ttext = s\<rparr>"

fun sep_by :: "'a \<Rightarrow> 'a list list \<Rightarrow> 'a list" where
  "sep_by s [] = []"
| "sep_by s [x] = x"
| "sep_by s (x # y # ys) = x @ s # sep_by s (y # ys)"

fun tokens :: "json \<Rightarrow> Token list" where
  "tokens JNull = [punct T_NULL ''null'']"
| "tokens (JBool b) = [punct T_BOOL (if b then ''true'' else ''false'')]"
| "tokens (JNumber s) = [punct T_NUMBER s]"
| "tokens (JString s) = [punct T_STRING s]"
| "tokens (JArray vs) =
     punct T_BEGINARRAY ''['' # sep_by (punct T_MEMBERSEP '','') (map tokens vs)
     @ [punct T_ENDARRAY '']'']"
| "tokens (JObject ms) =
     punct T_BEGINOBJECT ''{''
     # sep_by (punct T_MEMBERSEP '','')
         (map (\<lambda>m. punct T_STRING (fst m) # punct T_PAIRSEP '':'' # tokens (snd m)) ms)
     @ [punct T_ENDOBJECT ''}'']"

fun lex_tokens :: "Lexer \<Rightarrow> Token list \<Rightarrow> Lexer option" where
  "lex_tokens lx [] = Some lx"
| "lex_tokens lx (t # ts) =
     (case next_token lx of
        Inl e \<Rightarrow> None
      | Inr (t1, lx1) \<Rightarrow> if t1 = t then lex_tokens lx1 ts else None)"

fun is_array :: "json \<Rightarrow> bool" where
  "is_array (JArray vs) = True"
| "is_array _ = False"

fun is_object :: "json \<Rightarrow> bool" where
  "is_object (JObject ms) = True"
| "is_object _ = False"

text \<open>The value is not of the kind the operator expects.\<close>

fun shape_mismatch :: "Op \<Rightarrow> json \<Rightarrow> bool" where
  "shape_mismatch (ArrayOp tab nxt isroot) v = (\<not> is_array v)"
| "shape_mismatch (ObjectOp tab props isroot) v = (\<not> is_object v)"
| "shape_mismatch (CollectOp ti col) v = False"

text \<open>
  With enough fuel, and with any more, the function returns \<open>lx'\<close> from \<open>lx\<close>.
\<close>

definition skips :: "(nat \<Rightarrow> Lexer \<Rightarrow> error + Lexer) \<Rightarrow> Lexer \<Rightarrow> Lexer \<Rightarrow> bool" where
  "skips f lx lx' = (\<exists>n. \<forall>m \<ge> n. f m lx = Inr lx')"

definition skippable :: "json \<Rightarrow> bool" where
  "skippable v = (\<forall>lx lx'. lex_tokens lx (tokens v) = Some lx' \<longrightarrow> skips skip_value lx lx')"

definition member_tokens :: "string \<times> json \<Rightarrow> Token list" where
  "member_tokens m = punct T_STRING (fst m) # punct T_PAIRSEP '':'' # tokens (snd m)"

definition mismatch_document :: json where
  "mismatch_document = JObject [(''a'', JArray [JNumber ''1'', JNull])]"

definition mismatch_input :: string where
  "mismatch_input = ''{\"a\":[1,null]} 7''"

subsection \<open>Numbers in the input\<close>

text \<open>
  The shapes of a number: \<open>digits\<close> is a non-empty run of digits, \<open>signed_int_part\<close> the
  integer part with its optional minus sign (0 alone, or a digit from 1 to 9 and further
  digits).
\<close>

definition digits :: "string \<Rightarrow> bool" where
  "digits ds = (ds \<noteq> [] \<and> list_all is_digit ds)"

fun int_part :: "string \<Rightarrow> bool" where
  "int_part [] = False"
| "int_part (d # ds) = (if d = CHR ''0'' then ds = [] else is_1to9 d \<and> list_all is_digit ds)"

fun signed_int_part :: "string \<Rightarrow> bool" where
  "signed_int_part [] = False"
| "signed_int_part (c # cs) = (if c = CHR ''-'' then int_part cs else int_part (c # cs))"

definition number_token :: "string \<Rightarrow> Token" where
  "number_token s = \<lparr>ttype = T_NUMBER, ttext = s\<rparr>"

text \<open>
  For the loops of the number lexer: \<open>stops rest\<close> says that \<open>rest\<close> does not go on with a
  digit, \<open>pushed_back rest\<close> is the lexer after the first character of \<open>rest\<close> has been read
  and pushed back, and \<open>number_rest b rest\<close> is what the lexer does after the integer part
  \<open>b\<close>, when \<open>rest\<close> is empty or begins with the point or the exponent mark.
\<close>

definition stops :: "string \<Rightarrow> bool" where
  "stops rest = (case rest of [] \<Rightarrow> True | c # r \<Rightarrow> c \<noteq> NUL \<and> \<not> is_digit c)"

definition pushed_back :: "string \<Rightarrow> Lexer" where
  "pushed_back rest =
     (case rest of [] \<Rightarrow> at_input [] | c # r \<Rightarrow> \<lparr>input = r, unread = c, peek = None\<rparr>)"

definition number_rest :: "string \<Rightarrow> string \<Rightarrow> error + (string \<times> Lexer)" where
  "number_rest b rest =
     (case rest of
        [] \<Rightarrow> Inr (b, at_input [])
      | c # r \<Rightarrow> if c = CHR ''.'' then after_frac (b @ [c]) (at_input r)
                 else after_exp (b @ [c]) (at_input r))"

definition exp_mark :: "char \<Rightarrow> bool" where
  "exp_mark c = (c = CHR ''e'' \<or> c = CHR ''E'')"

definition sign_mark :: "char \<Rightarrow> bool" where
  "sign_mark c = (c = CHR ''+'' \<or> c = CHR ''-'')"

definition number_follows :: "string \<Rightarrow> bool" where
  "number_follows rest = (case rest of [] \<Rightarrow> True | c # r \<Rightarrow> c = CHR ''.'' \<or> exp_mark c)"

section \<open>Evaluation\<close>

text \<open>
  The definitions, for evaluating the program on a concrete input with the simplifier.
  With the weak congruence rules a \<open>case\<close> is only rewritten in the value it inspects.
\<close>

lemmas lex_defs = read_char_def unread_char_def is_ws_def is_digit_def is_1to9_def isxdigit_def
  is_valid_escape_def NUL_def int_wrap_def read_literal_def after_slash_def after_exp_def after_frac_def
  after_0_def after_minus_def mk_token_def read_token_def next_token_def peek_token_def
  is_literal_def accept_def init_lexer_def

lemmas tab_defs = buf_len_def buf_str_def nrows_def calloc_row_def add_value_def hasval_def
  add_row_def SIZE_MOD_def emit_cell_def emit_table_def emit_row_def flush_step_def
  reset_table_def flush_tables_def

lemmas pat_defs = cur_def new_table_def new_collect_op_def is_name_end_def parse_property_def
  init_table_def parse_pattern_def

lemmas run_defs = add_row_of_def flush_if_def skip_value_st_def run_collect_op_def
  init_state_def jl_def

lemmas weak_congs = sum.case_cong_weak prod.case_cong_weak option.case_cong_weak
  list.case_cong_weak

lemmas rec_simps = skip_ws.simps after_quote.simps append_digits.simps after_1to9.simps

text \<open>The equations of the bounded functions, for a bound written as a numeral.\<close>

lemmas fuel_simps =
  read_hex.simps(2) [of "pred_numeral k" for k, unfolded numeral_eq_Suc [symmetric]]
  skip_value.simps(2) [of "pred_numeral k" for k, unfolded numeral_eq_Suc [symmetric]]
  skip_array.simps(2) [of "pred_numeral k" for k, unfolded numeral_eq_Suc [symmetric]]
  skip_array_loop.simps(2) [of "pred_numeral k" for k, unfolded numeral_eq_Suc [symmetric]]
  skip_object.simps(2) [of "pred_numeral k" for k, unfolded numeral_eq_Suc [symmetric]]
  skip_object_loop.simps(2) [of "pred_numeral k" for k, unfolded numeral_eq_Suc [symmetric]]
  run_op.simps(2-4) [of "pred_numeral k" for k, unfolded numeral_eq_Suc [symmetric]]
  run_array_loop.simps(2) [of "pred_numeral k" for k, unfolded numeral_eq_Suc [symmetric]]
  run_object_loop.simps(2) [of "pred_numeral k" for k, unfolded numeral_eq_Suc [symmetric]]
  main_loop.simps(2) [of "pred_numeral k" for k, unfolded numeral_eq_Suc [symmetric]]

lemmas jl_eval = rec_simps pat_defs lex_defs tab_defs run_defs fuel_simps

section \<open>Rows of a table\<close>

lemma hasval_iff: "hasval t \<longleftrightarrow> (\<exists>i < ncols t. buf_len (newrow t ! i) > 0)"
  by (auto simp: hasval_def list_ex_iff)

lemma hasval_row_ok:
  assumes "hasval t" "length (newrow t) = ncols t"
  shows "row_ok (ncols t) (newrow t)"
proof -
  from assms(1) obtain i where "i < ncols t" "buf_len (newrow t ! i) > 0"
    by (auto simp: hasval_iff)
  with assms(2) have "\<exists>b \<in> set (newrow t). buf_len b > 0"
    by (metis nth_mem)
  with assms(2) show ?thesis
    by (simp add: row_ok_def list_ex_iff)
qed

lemma table_inv_add_row: "table_inv t \<Longrightarrow> table_inv (add_row t)"
  by (auto simp: table_inv_def add_row_def calloc_row_def hasval_row_ok)

text \<open>
  Claim C5. For every table, \<open>add_row\<close> appends the pending row to the completed rows
  if and only if one of its \<open>ncols\<close> cells holds text, and afterwards every cell of the
  pending row is empty; so the invariant that every completed row has \<open>ncols\<close> cells, one
  of them non-empty, is kept.
\<close>

theorem add_row_promotes:
  "rows (add_row t) =
     (if (\<exists>i < ncols t. buf_len (newrow t ! i) > 0) then rows t @ [newrow t] else rows t)
   \<and> (\<forall>i < ncols t. buf_len (newrow (add_row t) ! i) = 0)
   \<and> ncols (add_row t) = ncols t
   \<and> (table_inv t \<longrightarrow> table_inv (add_row t))"
  using table_inv_add_row [of t]
  by (auto simp: add_row_def hasval_iff calloc_row_def buf_len_def)

theorem add_row_promotes_witness:
  "table_inv t_pending
   \<and> rows (add_row t_pending) = [[Some ''a'', None], [None, Some ''x'']]
   \<and> newrow (add_row t_pending) = [None, None]
   \<and> table_inv (add_row t_pending)"
proof -
  have inv: "table_inv t_pending"
    by (simp add: t_pending_def table_inv_def row_ok_def buf_len_def)
  have hv: "\<exists>i < ncols t_pending. buf_len (newrow t_pending ! i) > 0"
    by (rule exI [of _ 1]) (simp add: t_pending_def buf_len_def)
  have nr: "newrow (add_row t_pending) = [None, None]"
    by (simp add: t_pending_def add_row_def hasval_def buf_len_def calloc_row_def
        numeral_2_eq_2)
  from add_row_promotes [of t_pending] inv hv nr show ?thesis
    by (simp add: t_pending_def)
qed

section \<open>Flushing the tables\<close>

lemma flush_count_eq:
  "n < SIZE_MOD \<Longrightarrow>
   flush_count ts h n = (h \<or> has_rows ts, (n * row_product ts) mod SIZE_MOD)"
proof (induction ts arbitrary: h n)
  case Nil
  then show ?case by (simp add: has_rows_def row_product_def)
next
  case (Cons t ts)
  show ?case
  proof (cases "nrows t > 0")
    case True
    have lt: "(n * nrows t) mod SIZE_MOD < SIZE_MOD"
      by (simp add: SIZE_MOD_def)
    have "max 1 (nrows t) = nrows t" using True by simp
    then have rp: "row_product (t # ts) = nrows t * row_product ts"
      by (simp add: row_product_def)
    have "((n * nrows t) mod SIZE_MOD * row_product ts) mod SIZE_MOD
          = (n * nrows t * row_product ts) mod SIZE_MOD"
      by (rule mod_mult_left_eq)
    with True Cons.IH [OF lt, of True] rp show ?thesis
      by (simp add: has_rows_def mult.assoc)
  next
    case False
    then have "row_product (t # ts) = row_product ts"
      by (simp add: row_product_def)
    with False Cons.IH [OF Cons.prems, of h] show ?thesis
      by (simp add: has_rows_def)
  qed
qed

lemma rowindex_ok_replicate: "rowindex_ok ts (replicate (length ts) 0)"
  by (simp add: rowindex_ok_def)

lemma rowindex_ok_row_indices: "rowindex_ok ts (row_indices i ts)"
  by (simp add: rowindex_ok_def row_indices_def)

lemma set_rowindex_eq:
  "rowindex_ok ts ri \<Longrightarrow> set_rowindex i ts ri = row_indices i ts"
proof (induction ts arbitrary: ri)
  case Nil
  then show ?case by (simp add: rowindex_ok_def row_indices_def)
next
  case (Cons t ts)
  then obtain r rs where ri: "ri = r # rs"
    by (cases ri) (auto simp: rowindex_ok_def)
  from Cons.prems ri have ok: "rowindex_ok ts rs"
    by (fastforce simp: rowindex_ok_def)
  from Cons.prems ri have r0: "nrows t = 0 \<Longrightarrow> r = 0"
    by (fastforce simp: rowindex_ok_def)
  from Cons.IH [OF ok] r0 ri show ?case
    by (auto simp: row_indices_def)
qed

lemma flush_loop_eq:
  "rowindex_ok ts ri \<Longrightarrow>
   rowindex_ok ts (fst (foldl (flush_step fieldsep ts) (ri, outp) [0..<n]))
   \<and> snd (foldl (flush_step fieldsep ts) (ri, outp) [0..<n]) = outp @ product_lines fieldsep ts n"
proof (induction n)
  case 0
  then show ?case by (simp add: product_lines_def)
next
  case (Suc n)
  then show ?case
    by (simp add: flush_step_def Let_def set_rowindex_eq rowindex_ok_row_indices
        product_lines_def)
qed

lemma reset_table_id: "nrows t = 0 \<Longrightarrow> reset_table t = t"
  by (simp add: reset_table_def nrows_def)

lemma no_rows_reset: "\<not> has_rows ts \<Longrightarrow> map reset_table ts = ts"
  by (rule map_idI) (simp add: has_rows_def list_ex_iff reset_table_id)

lemma flush_tables_eq:
  "flush_tables fieldsep ts outp =
     (map reset_table ts,
      outp @ (if has_rows ts then product_lines fieldsep ts (row_product ts mod SIZE_MOD) else []))"
proof -
  have one: "1 < SIZE_MOD" by (simp add: SIZE_MOD_def)
  show ?thesis
    using flush_count_eq [OF one, of ts False]
      flush_loop_eq [OF rowindex_ok_replicate, of ts fieldsep outp]
    by (simp add: flush_tables_def no_rows_reset)
qed

lemma product_lines_nonempty: "0 < n \<Longrightarrow> product_lines fieldsep ts n \<noteq> []"
  by (cases n) (simp_all add: product_lines_def emit_row_def)

lemma row_product_replicate: "row_product (replicate k t) = max 1 (nrows t) ^ k"
  by (induction k) (simp_all add: row_product_def)

text \<open>
  Claim C1, amended. For every flush, if the product of \<open>max 1 r\<close> over the row counts
  \<open>r\<close> of the tables fits \<^verbatim>\<open>size_t\<close> and some table has a completed row, exactly that
  many lines are emitted, line \<open>i\<close> taking row \<open>i mod max 1 r\<close> of each table; if no
  table has a completed row nothing is emitted; every table's completed rows are emptied.
\<close>

theorem flush_tables_product:
  assumes "row_product ts < SIZE_MOD"
  shows "flush_tables fieldsep ts outp =
           (map reset_table ts,
            outp @ (if has_rows ts then product_lines fieldsep ts (row_product ts) else []))"
  using assms by (simp add: flush_tables_eq)

theorem flush_tables_product_witness:
  "row_product [two_rows, two_rows\<lparr>rows := []\<rparr>] < SIZE_MOD
   \<and> flush_tables [CHR 0x09] [two_rows, two_rows\<lparr>rows := []\<rparr>] []
       = ([two_rows\<lparr>rows := []\<rparr>, two_rows\<lparr>rows := []\<rparr>],
          [CHR ''x'', CHR 0x09, CHR 0x0A, CHR ''y'', CHR 0x09, CHR 0x0A])"
proof -
  have lt: "row_product [two_rows, two_rows\<lparr>rows := []\<rparr>] < SIZE_MOD"
    by (simp add: row_product_def two_rows_def nrows_def SIZE_MOD_def)
  have rp: "row_product [two_rows, two_rows\<lparr>rows := []\<rparr>] = Suc (Suc 0)"
    by (simp add: row_product_def two_rows_def nrows_def)
  from flush_tables_product [OF lt, of "[CHR 0x09]" "[]"] lt show ?thesis
    by (simp add: rp has_rows_def product_lines_def row_indices_def two_rows_def tab_defs)
qed

text \<open>
  The claim as stated fails when the product does not fit: 64 tables of two rows each
  give \<open>2 ^ 64\<close>, the counter wraps to 0 and no line is emitted.
\<close>

theorem flush_tables_overflow_counterexample:
  "has_rows tables64
   \<and> row_product tables64 = 18446744073709551616
   \<and> product_lines [CHR 0x09] tables64 (row_product tables64) \<noteq> []
   \<and> snd (flush_tables [CHR 0x09] tables64 []) = []"
proof -
  have hr: "has_rows tables64"
    by (simp add: has_rows_def tables64_def two_rows_def nrows_def list_ex_iff)
  have "max 1 (nrows two_rows) = 2"
    by (simp add: two_rows_def nrows_def)
  then have rp: "row_product tables64 = 18446744073709551616"
    by (simp add: tables64_def row_product_replicate)
  have ne: "product_lines [CHR 0x09] tables64 (row_product tables64) \<noteq> []"
    by (rule product_lines_nonempty) (simp add: rp)
  have "snd (flush_tables [CHR 0x09] tables64 []) = []"
    by (simp add: flush_tables_eq rp SIZE_MOD_def product_lines_def)
  with hr rp ne show ?thesis by simp
qed

section \<open>The scenarios S4 and S2\<close>

text \<open>
  Claim C2. The pattern \<^verbatim>\<open>[{id,vals[*]}]\<close> compiles to an array of an object whose table
  has the column of \<open>id\<close> and whose property \<open>vals\<close> has a table of its own; the object is
  the root; and on the document of scenario S4, with the tab as field separator, the
  program writes the three lines \<open>a<TAB>1\<close>, \<open>a<TAB>2\<close>, \<open>b<TAB>3\<close>, in this order.
\<close>

theorem s4_three_lines:
  "parse_pattern s4_pattern =
     Inr (ArrayOp None
            (ObjectOp (Some 0)
               [(''vals'', ArrayOp (Some 1) (CollectOp 1 0) False), (''id'', CollectOp 0 0)]
               False)
            False,
          [\<lparr>ncols = 1, rows = [], newrow = [None]\<rparr>,
           \<lparr>ncols = 1, rows = [], newrow = [None]\<rparr>])
   \<and> find_root (ArrayOp None
            (ObjectOp (Some 0)
               [(''vals'', ArrayOp (Some 1) (CollectOp 1 0) False), (''id'', CollectOp 0 0)]
               False)
            False) =
     Inr (Some (ArrayOp None
            (ObjectOp (Some 0)
               [(''vals'', ArrayOp (Some 1) (CollectOp 1 0) False), (''id'', CollectOp 0 0)]
               True)
            False))
   \<and> jl 12 [TAB] s4_pattern s4_document =
     Inr (''a'' @ [TAB] @ ''1'' @ [LF] @ ''a'' @ [TAB] @ ''2'' @ [LF] @ ''b'' @ [TAB] @ ''3'' @ [LF])"
  by (simp add: s4_pattern_def s4_document_def TAB_def LF_def jl_eval cong: weak_congs)

text \<open>
  Claim C3. A new Collect node takes the number of columns its table has so far as its
  column, and the table then has one column more: columns follow the order in which the
  Collect nodes are created. The pattern \<^verbatim>\<open>{a,b}\<close> gives \<open>a\<close> column 0 and \<open>b\<close> column 1,
  and on the document of scenario S2 the program writes the one line \<open>1<TAB>2\<close>.
\<close>

theorem columns_in_creation_order:
  "fst (new_collect_op ti ts) = CollectOp ti (ncols (ts ! ti))
   \<and> (ti < length ts \<longrightarrow> ncols (snd (new_collect_op ti ts) ! ti) = Suc (ncols (ts ! ti)))
   \<and> parse_pattern s2_pattern =
       Inr (ObjectOp (Some 0) [(''b'', CollectOp 0 1), (''a'', CollectOp 0 0)] False,
            [\<lparr>ncols = 2, rows = [], newrow = [None, None]\<rparr>])
   \<and> jl 12 [TAB] s2_pattern s2_document = Inr (''1'' @ [TAB] @ ''2'' @ [LF])"
proof -
  have "parse_pattern s2_pattern =
       Inr (ObjectOp (Some 0) [(''b'', CollectOp 0 1), (''a'', CollectOp 0 0)] False,
            [\<lparr>ncols = 2, rows = [], newrow = [None, None]\<rparr>])"
    by (simp add: s2_pattern_def jl_eval numeral_2_eq_2 cong: weak_congs)
  moreover have "jl 12 [TAB] s2_pattern s2_document = Inr (''1'' @ [TAB] @ ''2'' @ [LF])"
    by (simp add: s2_pattern_def s2_document_def TAB_def LF_def jl_eval cong: weak_congs)
  ultimately show ?thesis
    by (simp add: new_collect_op_def)
qed

theorem columns_in_creation_order_witness:
  "0 < length [\<lparr>ncols = 0, rows = [], newrow = []\<rparr>]
   \<and> ncols (snd (new_collect_op 0 [\<lparr>ncols = 0, rows = [], newrow = []\<rparr>]) ! 0) = Suc 0
   \<and> fst (new_collect_op 0 (snd (new_collect_op 0 [\<lparr>ncols = 0, rows = [], newrow = []\<rparr>])))
       = CollectOp 0 (Suc 0)"
  using columns_in_creation_order [of 0 "[\<lparr>ncols = 0, rows = [], newrow = []\<rparr>]"]
    columns_in_creation_order [of 0 "snd (new_collect_op 0 [\<lparr>ncols = 0, rows = [], newrow = []\<rparr>])"]
  by (simp add: new_collect_op_def)

section \<open>Numbers at the end of the stream\<close>

lemma int_wrap_step: "int_wrap (int_wrap x + 1) = int_wrap (x + 1)"
proof -
  have "(((x + 2 ^ 31) mod 2 ^ 32 - 2 ^ 31) + 1 + 2 ^ 31) mod 2 ^ 32
        = ((x + 2 ^ 31) mod 2 ^ 32 + 1) mod (2 ^ 32 :: int)"
    by (simp add: algebra_simps)
  also have "\<dots> = (x + 2 ^ 31 + 1) mod 2 ^ 32"
    by (rule mod_add_left_eq)
  finally show ?thesis
    by (simp add: int_wrap_def algebra_simps)
qed

lemma int_wrap_id: "- (2 ^ 31) \<le> x \<Longrightarrow> x < 2 ^ 31 \<Longrightarrow> int_wrap x = x"
  by (simp add: int_wrap_def)

lemma is_digit_not_NUL: "is_digit c \<Longrightarrow> c \<noteq> NUL"
  by (auto simp: is_digit_def NUL_def)

lemma append_digits_run:
  "list_all is_digit ds \<Longrightarrow> stops rest \<Longrightarrow>
   append_digits (int_wrap n) b (at_input (ds @ rest))
     = (int_wrap (n + int (length ds)), b @ ds, pushed_back rest)"
proof (induction ds arbitrary: n b)
  case Nil
  then show ?case
    by (subst append_digits.simps)
       (auto simp: read_char_def stops_def pushed_back_def unread_char_def split: list.splits)
next
  case (Cons d ds)
  then have d: "is_digit d" "d \<noteq> NUL" and ds: "list_all is_digit ds"
    by (simp_all add: is_digit_not_NUL)
  have "append_digits (int_wrap n) b (at_input ((d # ds) @ rest))
        = append_digits (int_wrap (n + 1)) (b @ [d]) (at_input (ds @ rest))"
    using d by (subst append_digits.simps) (simp add: read_char_def int_wrap_step)
  with Cons.IH [OF ds Cons.prems(2), of "n + 1" "b @ [d]"] show ?case
    by (simp add: algebra_simps)
qed

lemma int_wrap_0: "int_wrap 0 = 0"
  by (simp add: int_wrap_def)

lemma append_digits_count:
  assumes "list_all is_digit ds" "stops rest"
  shows "append_digits 0 b (at_input (ds @ rest))
         = (int_wrap (int (length ds)), b @ ds, pushed_back rest)"
  using append_digits_run [OF assms, of 0 b] by (simp add: int_wrap_0)

lemma stops_simps [simp]: "stops []" "exp_mark c \<Longrightarrow> stops (c # r)"
  by (auto simp: stops_def exp_mark_def is_digit_def NUL_def)

lemma pushed_back_simps [simp]:
  "pushed_back [] = at_input []"
  "pushed_back (c # r) = \<lparr>input = r, unread = c, peek = None\<rparr>"
  by (simp_all add: pushed_back_def)

lemma exp_mark_not_NUL: "exp_mark c \<Longrightarrow> c \<noteq> NUL"
  by (auto simp: exp_mark_def NUL_def)

lemma after_frac_eof:
  assumes "list_all is_digit fs"
  shows "after_frac b (at_input fs)
         = (if int_wrap (int (length fs)) < 1 then Inl NoDigitsAfterFraction
            else Inr (b @ fs, at_input []))"
  using append_digits_count [OF assms, of "[]" b]
  by (simp add: after_frac_def read_char_def)

lemma after_frac_exp:
  assumes "list_all is_digit fs" "exp_mark e"
  shows "after_frac b (at_input (fs @ e # r))
         = (if int_wrap (int (length fs)) < 1 then Inl NoDigitsAfterFraction
            else after_exp (b @ fs @ [e]) (at_input r))"
  using append_digits_count [OF assms(1), of "e # r" b] assms(2) exp_mark_not_NUL [OF assms(2)]
  by (auto simp: after_frac_def read_char_def exp_mark_def)

lemma after_exp_eof: "after_exp b (at_input []) = Inl NoExponentDigits"
  by (simp add: after_exp_def read_char_def)

lemma after_exp_sign:
  assumes "sign_mark s" "list_all is_digit ds"
  shows "after_exp b (at_input (s # ds))
         = (if int_wrap (int (length ds)) = 0 then Inl NoExponentDigits
            else Inr (b @ s # ds, at_input []))"
  using append_digits_count [OF assms(2), of "[]" "b @ [s]"] assms(1)
  by (auto simp: after_exp_def read_char_def sign_mark_def NUL_def)

lemma after_exp_digits:
  assumes "digits ds"
  shows "after_exp b (at_input ds) = Inr (b @ ds, at_input [])"
proof -
  from assms obtain d ds' where ds: "ds = d # ds'" "is_digit d" "list_all is_digit ds'"
    by (cases ds) (auto simp: digits_def)
  then have "d \<noteq> NUL" "d \<noteq> CHR ''+''" "d \<noteq> CHR ''-''"
    by (auto simp: is_digit_def NUL_def)
  with ds append_digits_count [OF ds(3), of "[]" "b @ [d]"] show ?thesis
    by (simp add: after_exp_def read_char_def)
qed

lemma number_chars:
  "CHR ''-'' \<noteq> NUL" "CHR ''0'' \<noteq> NUL" "CHR ''.'' \<noteq> NUL"
  "\<not> is_ws (CHR ''-'')" "\<not> is_ws (CHR ''0'')"
  by (simp_all add: NUL_def is_ws_def)

lemma is_digit_chars:
  assumes "is_digit d"
  shows "d \<noteq> NUL" "d \<noteq> CHR ''.''"
  using assms by (auto simp: is_digit_def NUL_def)

lemma after_0_rest:
  assumes "number_follows rest"
  shows "after_0 b (at_input rest) = number_rest b rest"
proof (cases rest)
  case Nil
  then show ?thesis by (simp add: after_0_def number_rest_def read_char_def NUL_def)
next
  case (Cons c r)
  with assms have "c = CHR ''.'' \<or> exp_mark c" by (simp add: number_follows_def)
  with Cons show ?thesis
    by (auto simp: after_0_def number_rest_def read_char_def exp_mark_def NUL_def)
qed

lemma after_1to9_rest:
  assumes "list_all is_digit ds" "number_follows rest"
  shows "after_1to9 b (at_input (ds @ rest)) = number_rest (b @ ds) rest"
  using assms(1)
proof (induction ds arbitrary: b)
  case Nil
  show ?case
  proof (cases rest)
    case Nil
    then show ?thesis
      by (subst after_1to9.simps) (simp add: number_rest_def read_char_def)
  next
    case (Cons c r)
    with assms(2) have "c = CHR ''.'' \<or> exp_mark c" by (simp add: number_follows_def)
    with Cons show ?thesis
      by (subst after_1to9.simps)
         (auto simp: number_rest_def read_char_def exp_mark_def NUL_def is_digit_def)
  qed
next
  case (Cons d ds)
  then have dd: "is_digit d" and ds: "list_all is_digit ds"
    by simp_all
  note d = dd is_digit_chars [OF dd]
  have "after_1to9 b (at_input ((d # ds) @ rest)) = after_1to9 (b @ [d]) (at_input (ds @ rest))"
    using d by (subst after_1to9.simps) (simp add: read_char_def)
  with Cons.IH [OF ds, of "b @ [d]"] show ?case by simp
qed

lemma int_part_rest:
  assumes "int_part (d # ds)" "number_follows rest"
  shows "(if d = CHR ''0'' then after_0 (b @ [d]) (at_input (ds @ rest))
          else after_1to9 (b @ [d]) (at_input (ds @ rest)))
         = number_rest (b @ d # ds) rest"
  using assms after_0_rest [OF assms(2), of "b @ [d]"]
    after_1to9_rest [OF _ assms(2), of ds "b @ [d]"]
  by (auto split: if_splits)

lemma skip_ws_char:
  assumes "\<not> is_ws c" "c \<noteq> NUL"
  shows "skip_ws (at_input (c # r)) = (c, at_input r)"
  using assms by (subst skip_ws.simps) (simp add: read_char_def)

lemma is_1to9_chars:
  assumes "is_1to9 d"
  shows "\<not> is_ws d" "d \<noteq> NUL" "d \<noteq> CHR ''0''" "d \<noteq> CHR ''-''"
    "d \<notin> set ''{}:,[]tfn''" "d \<noteq> CHR 0x22"
  using assms by (auto simp: is_1to9_def is_ws_def NUL_def)

lemma read_token_number:
  assumes "signed_int_part p" "number_follows rest"
  shows "read_token (at_input (p @ rest)) = mk_token T_NUMBER (number_rest p rest)"
proof -
  from assms(1) obtain c cs where p: "p = c # cs" by (cases p) auto
  show ?thesis
  proof (cases "c = CHR ''-''")
    case True
    with assms(1) p obtain d ds where cs: "cs = d # ds" and ip: "int_part (d # ds)"
      by (cases cs) auto
    have sk: "skip_ws (at_input (p @ rest)) = (CHR ''-'', at_input (cs @ rest))"
      unfolding p True by (simp add: skip_ws_char number_chars)
    have "is_1to9 d" if "d \<noteq> CHR ''0''"
      using ip that by simp
    then have "after_minus ''-'' (at_input (cs @ rest)) = number_rest p rest"
      using int_part_rest [OF ip assms(2), of "''-''"] is_1to9_chars(2) [of d] unfolding cs p True
      by (auto simp: after_minus_def read_char_def number_chars)
    then show ?thesis
      by (simp add: read_token_def sk number_chars)
  next
    case False
    with assms(1) p have ip: "int_part (c # cs)" by simp
    show ?thesis
    proof (cases "c = CHR ''0''")
      case True
      have sk: "skip_ws (at_input (p @ rest)) = (CHR ''0'', at_input (cs @ rest))"
        unfolding p True by (simp add: skip_ws_char number_chars)
      from int_part_rest [OF ip assms(2), of "[]"] True
      have "after_0 ''0'' (at_input (cs @ rest)) = number_rest p rest"
        by (simp add: p)
      then show ?thesis
        by (simp add: read_token_def sk number_chars)
    next
      case nz: False
      with ip have d: "is_1to9 c" by simp
      note ch = is_1to9_chars [OF d]
      have sk: "skip_ws (at_input (p @ rest)) = (c, at_input (cs @ rest))"
        unfolding p by (simp add: skip_ws_char ch)
      from int_part_rest [OF ip assms(2), of "[]"] nz
      have "after_1to9 [c] (at_input (cs @ rest)) = number_rest p rest"
        by (simp add: p)
      with ch d show ?thesis
        by (simp add: read_token_def sk)
    qed
  qed
qed

lemma next_token_at_input_read: "next_token (at_input x) = read_token (at_input x)"
  by (simp add: next_token_def)

lemma count_small:
  assumes "digits ds" "length ds < 2 ^ 31"
  shows "\<not> int_wrap (int (length ds)) < 1" "int_wrap (int (length ds)) \<noteq> 0"
proof -
  from assms(1) have "0 < length ds" by (simp add: digits_def)
  moreover from assms(2) have "int (length ds) < 2 ^ 31"
    by (metis of_nat_less_iff of_nat_numeral of_nat_power)
  ultimately have "int_wrap (int (length ds)) = int (length ds)" "0 < int (length ds)"
    by (simp_all add: int_wrap_id)
  then show "\<not> int_wrap (int (length ds)) < 1" "int_wrap (int (length ds)) \<noteq> 0"
    by simp_all
qed

lemma exponent_tail:
  assumes "sign_mark s"
  shows "after_exp b (at_input []) = Inl NoExponentDigits"
    and "after_exp b (at_input [s]) = Inl NoExponentDigits"
    and "digits ds \<Longrightarrow> after_exp b (at_input ds) = Inr (b @ ds, at_input [])"
    and "digits ds \<Longrightarrow> length ds < 2 ^ 31
         \<Longrightarrow> after_exp b (at_input (s # ds)) = Inr (b @ s # ds, at_input [])"
proof -
  show "after_exp b (at_input []) = Inl NoExponentDigits" by (rule after_exp_eof)
  show "after_exp b (at_input [s]) = Inl NoExponentDigits"
    using after_exp_sign [OF assms, of "[]" b] by (simp add: int_wrap_0)
  show "digits ds \<Longrightarrow> after_exp b (at_input ds) = Inr (b @ ds, at_input [])"
    by (rule after_exp_digits)
  show "digits ds \<Longrightarrow> length ds < 2 ^ 31
         \<Longrightarrow> after_exp b (at_input (s # ds)) = Inr (b @ s # ds, at_input [])"
    using after_exp_sign [OF assms, of ds b] count_small(2) [of ds]
    by (simp add: digits_def)
qed

lemma exp_mark_not_dot: "exp_mark e \<Longrightarrow> e \<noteq> CHR ''.''"
  by (auto simp: exp_mark_def)

lemma next_token_int_exp:
  assumes "signed_int_part p" "exp_mark e"
  shows "next_token (at_input (p @ e # r)) = mk_token T_NUMBER (after_exp (p @ [e]) (at_input r))"
proof -
  from assms(2) have "number_follows (e # r)" by (simp add: number_follows_def)
  from read_token_number [OF assms(1) this] exp_mark_not_dot [OF assms(2)] show ?thesis
    by (simp add: next_token_at_input_read number_rest_def)
qed

lemma next_token_frac:
  assumes "signed_int_part p" "digits fs" "length fs < 2 ^ 31"
  shows "next_token (at_input (p @ CHR ''.'' # fs))
         = Inr (number_token (p @ CHR ''.'' # fs), at_input [])"
proof -
  have "number_follows (CHR ''.'' # fs)" by (simp add: number_follows_def)
  from read_token_number [OF assms(1) this] assms(2) count_small(1) [OF assms(2,3)]
  show ?thesis
    by (simp add: next_token_at_input_read number_rest_def after_frac_eof digits_def
        mk_token_def number_token_def)
qed

lemma next_token_frac_exp:
  assumes "signed_int_part p" "digits fs" "length fs < 2 ^ 31" "exp_mark e"
  shows "next_token (at_input ((p @ CHR ''.'' # fs) @ e # r))
         = mk_token T_NUMBER (after_exp ((p @ CHR ''.'' # fs) @ [e]) (at_input r))"
proof -
  have "number_follows (CHR ''.'' # fs @ e # r)" by (simp add: number_follows_def)
  from read_token_number [OF assms(1) this] assms(2) count_small(1) [OF assms(2,3)]
  show ?thesis
    by (simp add: next_token_at_input_read number_rest_def after_frac_exp [OF _ assms(4)]
        digits_def)
qed

lemma mantissa_exp:
  assumes "signed_int_part p" "digits fs" "length fs < 2 ^ 31" "exp_mark e"
    "m = p \<or> m = p @ CHR ''.'' # fs"
  shows "next_token (at_input (m @ e # r)) = mk_token T_NUMBER (after_exp (m @ [e]) (at_input r))"
  using assms(5) next_token_int_exp [OF assms(1,4), of r] next_token_frac_exp [OF assms(1-4), of r]
  by auto

lemma number_end_of_stream_lemma:
  assumes "signed_int_part p" "digits fs" "length fs < 2 ^ 31" "digits ds" "length ds < 2 ^ 31"
    "exp_mark e" "sign_mark s" "m = p \<or> m = p @ CHR ''.'' # fs"
  shows "next_token (at_input (m @ [e])) = Inl NoExponentDigits
       \<and> next_token (at_input (m @ [e, s])) = Inl NoExponentDigits
       \<and> next_token (at_input (m @ e # ds)) = Inr (number_token (m @ e # ds), at_input [])
       \<and> next_token (at_input (m @ e # s # ds))
           = Inr (number_token (m @ e # s # ds), at_input [])"
  using assms(4,5)
  by (simp add: mantissa_exp [OF assms(1,2,3,6,8)] exponent_tail [OF assms(7)]
      mk_token_def number_token_def)

text \<open>
  Claim C7, amended. After the integer part of a number, or after its fraction, the end
  of the stream right after \<open>e\<close> or \<open>E\<close>, or after a sign that follows it, is the fatal error
  "no exponent digits". The end of the stream after the digits of the fraction, or of the
  exponent (signed or not), ends the number token with these digits in its text, when
  there is at least one such digit and there are fewer than \<open>2 ^ 31\<close>.
\<close>

theorem number_end_of_stream:
  assumes "signed_int_part p" "digits fs" "length fs < 2 ^ 31" "digits ds" "length ds < 2 ^ 31"
    "exp_mark e" "sign_mark s"
  shows "next_token (at_input (p @ CHR ''.'' # fs))
           = Inr (number_token (p @ CHR ''.'' # fs), at_input [])
       \<and> (\<forall>m \<in> {p, p @ CHR ''.'' # fs}.
             next_token (at_input (m @ [e])) = Inl NoExponentDigits
           \<and> next_token (at_input (m @ [e, s])) = Inl NoExponentDigits
           \<and> next_token (at_input (m @ e # ds)) = Inr (number_token (m @ e # ds), at_input [])
           \<and> next_token (at_input (m @ e # s # ds))
               = Inr (number_token (m @ e # s # ds), at_input []))"
  using next_token_frac [OF assms(1-3)] number_end_of_stream_lemma [OF assms]
  by blast

theorem number_end_of_stream_witness:
  "signed_int_part ''-12'' \<and> digits ''25'' \<and> length ''25'' < 2 ^ 31
   \<and> digits ''07'' \<and> length ''07'' < 2 ^ 31 \<and> exp_mark (CHR ''e'') \<and> sign_mark (CHR ''+'')
   \<and> next_token (at_input ''-12.25'') = Inr (number_token ''-12.25'', at_input [])
   \<and> next_token (at_input ''-12e'') = Inl NoExponentDigits
   \<and> next_token (at_input ''-12.25e'') = Inl NoExponentDigits
   \<and> next_token (at_input ''-12e+'') = Inl NoExponentDigits
   \<and> next_token (at_input ''-12.25e+'') = Inl NoExponentDigits
   \<and> next_token (at_input ''-12e07'') = Inr (number_token ''-12e07'', at_input [])
   \<and> next_token (at_input ''-12.25e07'') = Inr (number_token ''-12.25e07'', at_input [])
   \<and> next_token (at_input ''-12e+07'') = Inr (number_token ''-12e+07'', at_input [])
   \<and> next_token (at_input ''-12.25e+07'') = Inr (number_token ''-12.25e+07'', at_input [])"
proof -
  have h: "signed_int_part ''-12''" "digits ''25''" "length ''25'' < 2 ^ 31"
    "digits ''07''" "length ''07'' < 2 ^ 31" "exp_mark (CHR ''e'')" "sign_mark (CHR ''+'')"
    by (simp_all add: digits_def is_digit_def is_1to9_def exp_mark_def sign_mark_def)
  from number_end_of_stream [OF h] h show ?thesis
    by simp
qed

text \<open>
  The claim as stated fails when the \<^verbatim>\<open>int\<close> counter of \<^verbatim>\<open>append_digits\<close> has wrapped: after
  \<open>2 ^ 31\<close> digits of the fraction the count is negative, after a sign and \<open>2 ^ 32\<close> digits
  of the exponent it is 0, and the end of the stream is a fatal error.
\<close>

theorem number_counter_overflow_counterexample:
  "signed_int_part ''0''
   \<and> digits (replicate 2147483648 (CHR ''0''))
   \<and> next_token (at_input (''0.'' @ replicate 2147483648 (CHR ''0'')))
       = Inl NoDigitsAfterFraction
   \<and> digits (replicate 4294967296 (CHR ''0''))
   \<and> next_token (at_input (''0e+'' @ replicate 4294967296 (CHR ''0'')))
       = Inl NoExponentDigits"
proof -
  have z: "is_digit (CHR ''0'')" by (simp add: is_digit_def)
  have p: "signed_int_part ''0''" by simp
  have d1: "list_all is_digit (replicate 2147483648 (CHR ''0''))"
    and d2: "list_all is_digit (replicate 4294967296 (CHR ''0''))"
    using z by (simp_all add: list_all_iff)
  have dg: "digits (replicate 2147483648 (CHR ''0''))" "digits (replicate 4294967296 (CHR ''0''))"
    using d1 d2 by (simp_all add: digits_def)
  have w1: "int_wrap (int (length (replicate 2147483648 (CHR ''0'')))) < 1"
    by (simp add: int_wrap_def)
  have w2: "int_wrap (int (length (replicate 4294967296 (CHR ''0'')))) = 0"
    by (simp add: int_wrap_def)
  have f: "number_follows (CHR ''.'' # replicate 2147483648 (CHR ''0''))"
    by (simp add: number_follows_def)
  have "read_token (at_input (''0'' @ CHR ''.'' # replicate 2147483648 (CHR ''0'')))
        = Inl NoDigitsAfterFraction"
    unfolding read_token_number [OF p f]
    using w1 by (simp add: number_rest_def after_frac_eof [OF d1] mk_token_def)
  then have a: "next_token (at_input (''0.'' @ replicate 2147483648 (CHR ''0'')))
        = Inl NoDigitsAfterFraction"
    by (simp add: next_token_at_input_read)
  have e: "exp_mark (CHR ''e'')" by (simp add: exp_mark_def)
  have s: "sign_mark (CHR ''+'')" by (simp add: sign_mark_def)
  have "next_token (at_input (''0'' @ CHR ''e'' # CHR ''+'' # replicate 4294967296 (CHR ''0'')))
        = Inl NoExponentDigits"
    unfolding next_token_int_exp [OF p e]
    using w2 by (simp add: after_exp_sign [OF s d2] mk_token_def)
  then have b: "next_token (at_input (''0e+'' @ replicate 4294967296 (CHR ''0'')))
        = Inl NoExponentDigits"
    by simp
  from p dg a b show ?thesis by simp
qed

section \<open>Strings in the lexer\<close>

lemma read_char_stream:
  assumes "read_char lx = (c, lx')" "c \<noteq> NUL"
  shows "stream lx = c # input lx' \<and> unread lx' = NUL \<and> peek lx' = peek lx"
  using assms by (auto simp: read_char_def stream_def split: if_splits list.splits)

lemma read_char_input:
  assumes "read_char lx = (c, lx')" "c \<noteq> NUL" "unread lx = NUL"
  shows "input lx = c # input lx' \<and> unread lx' = NUL \<and> peek lx' = peek lx"
  using read_char_stream [OF assms(1,2)] assms(3) by (simp add: stream_def)

lemma isxdigit_not_NUL: "isxdigit c \<Longrightarrow> c \<noteq> NUL"
  by (auto simp: isxdigit_def NUL_def)

lemma is_valid_escape_not_NUL: "is_valid_escape c \<Longrightarrow> c \<noteq> NUL"
  by (auto simp: is_valid_escape_def NUL_def)

lemma read_hex_input:
  "read_hex n b lx = Inr (b', lx') \<Longrightarrow> unread lx = NUL \<Longrightarrow>
   \<exists>s. b' = b @ s \<and> input lx = s @ input lx' \<and> unread lx' = NUL \<and> peek lx' = peek lx"
proof (induction n arbitrary: b lx)
  case 0
  then show ?case by simp
next
  case (Suc n)
  obtain c lx1 where rc: "read_char lx = (c, lx1)" by (cases "read_char lx")
  with Suc.prems have x: "isxdigit c" and r: "read_hex n (b @ [c]) lx1 = Inr (b', lx')"
    by (auto split: if_splits)
  from read_char_input [OF rc isxdigit_not_NUL [OF x] Suc.prems(2)]
  have i: "input lx = c # input lx1" "unread lx1 = NUL" "peek lx1 = peek lx" by simp_all
  from Suc.IH [OF r i(2)] obtain s where
    "b' = (b @ [c]) @ s" "input lx1 = s @ input lx'" "unread lx' = NUL" "peek lx' = peek lx1"
    by blast
  with i have "b' = b @ (c # s) \<and> input lx = (c # s) @ input lx' \<and> unread lx' = NUL
               \<and> peek lx' = peek lx"
    by simp
  then show ?case by blast
qed

lemma after_slash_input:
  assumes "after_slash b lx = Inr (b', lx')" "unread lx = NUL"
  shows "\<exists>s. b' = b @ s \<and> input lx = s @ input lx' \<and> unread lx' = NUL
             \<and> peek lx' = peek lx"
proof -
  obtain c lx1 where rc: "read_char lx = (c, lx1)" by (cases "read_char lx")
  show ?thesis
  proof (cases "is_valid_escape c")
    case True
    with assms rc have "b' = b @ [c]" "lx' = lx1"
      by (simp_all add: after_slash_def)
    with read_char_input [OF rc is_valid_escape_not_NUL [OF True] assms(2)]
    have "b' = b @ [c] \<and> input lx = [c] @ input lx' \<and> unread lx' = NUL \<and> peek lx' = peek lx"
      by simp
    then show ?thesis by blast
  next
    case False
    with assms rc have u: "c = CHR ''u''"
      and r: "read_hex 4 (b @ [CHR ''u'']) lx1 = Inr (b', lx')"
      by (auto simp: after_slash_def split: if_splits)
    from u have "c \<noteq> NUL" by (simp add: NUL_def)
    from read_char_input [OF rc this assms(2)]
    have i: "input lx = c # input lx1" "unread lx1 = NUL" "peek lx1 = peek lx" by simp_all
    from read_hex_input [OF r i(2)] obtain s where
      "b' = (b @ [CHR ''u'']) @ s" "input lx1 = s @ input lx'" "unread lx' = NUL"
      "peek lx' = peek lx1"
      by blast
    with i u have "b' = b @ (c # s) \<and> input lx = (c # s) @ input lx' \<and> unread lx' = NUL
                   \<and> peek lx' = peek lx"
      by simp
    then show ?thesis by blast
  qed
qed

lemma after_quote_input:
  "after_quote b lx = Inr (b', lx') \<Longrightarrow> unread lx = NUL \<Longrightarrow>
   \<exists>s. b' = b @ s \<and> input lx = s @ QUOTE # input lx' \<and> unread lx' = NUL
       \<and> peek lx' = peek lx"
proof (induction b lx rule: after_quote.induct)
  case (1 b lx)
  obtain c lx1 where rc: "read_char lx = (c, lx1)" by (cases "read_char lx")
  from "1.prems"(1) rc have nz: "c \<noteq> NUL"
    by (subst (asm) after_quote.simps) (auto split: if_splits)
  from read_char_input [OF rc nz "1.prems"(2)]
  have i: "input lx = c # input lx1" "unread lx1 = NUL" "peek lx1 = peek lx" by simp_all
  show ?case
  proof (cases "c = CHR 0x22")
    case True
    with "1.prems"(1) rc nz have "b' = b" "lx' = lx1"
      by (subst (asm) after_quote.simps, simp)+
    with i True have "b' = b @ [] \<and> input lx = [] @ QUOTE # input lx' \<and> unread lx' = NUL
                      \<and> peek lx' = peek lx"
      by (simp add: QUOTE_def)
    then show ?thesis by blast
  next
    case nq: False
    show ?thesis
    proof (cases "c = CHR 0x5C")
      case True
      with "1.prems"(1) rc nz nq obtain b2 lx2 where
        sl: "after_slash (b @ [CHR 0x5C]) lx1 = Inr (b2, lx2)"
        and aq: "after_quote b2 lx2 = Inr (b', lx')"
        by (subst (asm) after_quote.simps) (auto split: sum.splits)
      from after_slash_input [OF sl i(2)] obtain s1 where
        s1: "b2 = (b @ [CHR 0x5C]) @ s1" "input lx1 = s1 @ input lx2" "unread lx2 = NUL"
          "peek lx2 = peek lx1"
        by blast
      from "1.IH"(1) [OF rc [symmetric] nz nq True sl refl aq s1(3)]
      obtain s2 where
        s2: "b' = b2 @ s2" "input lx2 = s2 @ QUOTE # input lx'" "unread lx' = NUL"
          "peek lx' = peek lx2"
        by blast
      from i s1 s2 True
      have "b' = b @ (c # s1 @ s2) \<and> input lx = (c # s1 @ s2) @ QUOTE # input lx'
            \<and> unread lx' = NUL \<and> peek lx' = peek lx"
        by simp
      then show ?thesis by blast
    next
      case nb: False
      with "1.prems"(1) rc nz nq have ctl: "\<not> (of_char c :: nat) \<le> 0x1f"
        and aq: "after_quote (b @ [c]) lx1 = Inr (b', lx')"
        by (subst (asm) after_quote.simps, auto split: if_splits)+
      from "1.IH"(2) [OF rc [symmetric] nz nq nb ctl aq i(2)]
      obtain s2 where
        s2: "b' = (b @ [c]) @ s2" "input lx1 = s2 @ QUOTE # input lx'" "unread lx' = NUL"
          "peek lx' = peek lx1"
        by blast
      from i s2
      have "b' = b @ (c # s2) \<and> input lx = (c # s2) @ QUOTE # input lx'
            \<and> unread lx' = NUL \<and> peek lx' = peek lx"
        by simp
      then show ?thesis by blast
    qed
  qed
qed

lemma skip_ws_stream:
  "skip_ws lx = (c, lx') \<Longrightarrow> c \<noteq> NUL \<Longrightarrow>
   \<exists>ws. list_all is_ws ws \<and> stream lx = ws @ c # input lx' \<and> unread lx' = NUL
        \<and> peek lx' = peek lx"
proof (induction lx rule: skip_ws.induct)
  case (1 lx)
  obtain d lx1 where rc: "read_char lx = (d, lx1)" by (cases "read_char lx")
  show ?case
  proof (cases "is_ws d")
    case True
    with "1.prems"(1) rc have sk: "skip_ws lx1 = (c, lx')"
      by (subst (asm) skip_ws.simps) simp
    from read_char_stream [OF rc is_ws_not_NUL [OF True]]
    have i: "stream lx = d # input lx1" "unread lx1 = NUL" "peek lx1 = peek lx" by simp_all
    from "1.IH" [OF rc [symmetric] True sk "1.prems"(2)] obtain ws where
      "list_all is_ws ws" "stream lx1 = ws @ c # input lx'" "unread lx' = NUL"
      "peek lx' = peek lx1"
      by blast
    with i True have "list_all is_ws (d # ws) \<and> stream lx = (d # ws) @ c # input lx'
                      \<and> unread lx' = NUL \<and> peek lx' = peek lx"
      by (simp add: stream_def)
    then show ?thesis by blast
  next
    case False
    with "1.prems"(1) rc have "d = c" "lx1 = lx'"
      by (subst (asm) skip_ws.simps, simp)+
    with read_char_stream [OF rc] "1.prems"(2)
    have "list_all is_ws [] \<and> stream lx = [] @ c # input lx' \<and> unread lx' = NUL
          \<and> peek lx' = peek lx"
      by simp
    then show ?thesis by blast
  qed
qed

lemma mk_token_Inr:
  "mk_token ty r = Inr (t, lx') \<Longrightarrow> ttype t = ty \<and> r = Inr (ttext t, lx')"
  by (auto simp: mk_token_def split: sum.splits)

lemma read_token_string:
  assumes "read_token lx = Inr (t, lx')" "ttype t = T_STRING"
  shows "\<exists>lx1. skip_ws lx = (QUOTE, lx1) \<and> after_quote [] lx1 = Inr (ttext t, lx')"
proof -
  obtain c lx1 where sk: "skip_ws lx = (c, lx1)" by (cases "skip_ws lx")
  have "c = CHR 0x22 \<and> after_quote [] lx1 = Inr (ttext t, lx')"
    using assms sk
    by (auto simp: read_token_def split: if_splits dest!: mk_token_Inr)
  with sk show ?thesis by (simp add: QUOTE_def)
qed

lemma read_token_string_stream:
  assumes "read_token lx = Inr (t, lx')" "ttype t = T_STRING"
  shows "\<exists>ws. list_all is_ws ws \<and> stream lx = ws @ QUOTE # ttext t @ QUOTE # stream lx'"
proof -
  from read_token_string [OF assms] obtain lx1 where
    sk: "skip_ws lx = (QUOTE, lx1)" and aq: "after_quote [] lx1 = Inr (ttext t, lx')"
    by blast
  have "QUOTE \<noteq> NUL" by (simp add: QUOTE_def NUL_def)
  from skip_ws_stream [OF sk this] obtain ws where
    ws: "list_all is_ws ws" "stream lx = ws @ QUOTE # input lx1" "unread lx1 = NUL"
    by blast
  from after_quote_input [OF aq ws(3)] obtain s where
    "ttext t = [] @ s" "input lx1 = s @ QUOTE # input lx'" "unread lx' = NUL"
    by blast
  with ws have "list_all is_ws ws \<and> stream lx = ws @ QUOTE # ttext t @ QUOTE # stream lx'"
    by (simp add: stream_def)
  then show ?thesis by blast
qed

lemma add_value_cell:
  "col < length (newrow t) \<Longrightarrow> buf_str (newrow (add_value t col val) ! col) = val"
  by (auto simp: add_value_def Let_def buf_str_def buf_len_def split: option.splits)

section \<open>A compiled pattern has a root\<close>

lemma find_root_well_formed:
  "well_formed op \<Longrightarrow> \<not> is_collect op \<Longrightarrow> \<exists>op'. find_root op = Inr (Some op')"
proof (induction op rule: find_root.induct)
  case (1 tab nxt r)
  then show ?case by (cases "is_collect nxt") auto
next
  case (2 tab r)
  then show ?case by simp
next
  case (3 tab nm sub rest r)
  then show ?case by (cases "rest \<noteq> [] \<or> is_collect sub") auto
next
  case (4 ti col)
  then show ?case by simp
qed

lemma new_collect_op_is_collect:
  "new_collect_op ti ts = (cop, ts') \<Longrightarrow> is_collect cop \<and> well_formed cop"
  by (auto simp: new_collect_op_def)

lemma parsed_ok_Inl [simp]: "parsed_ok (Inl e)"
  by (simp add: parsed_ok_def)

lemma parsed_ok_Inr [simp]:
  "parsed_ok (Inr (op, pos, ts)) = (well_formed op \<and> \<not> is_collect op)"
  by (simp add: parsed_ok_def)

lemma parsed_okD:
  "parsed_ok r \<Longrightarrow> r = Inr (op, pos, ts) \<Longrightarrow> well_formed op"
  by simp

lemma parse_array_step:
  assumes "\<And>pos ts. parsed_ok (parse_array n pos ts)"
    and "\<And>pos ts. parsed_ok (parse_object n pos ts)"
  shows "parsed_ok (parse_array (Suc n) pos ts)"
proof -
  have a: "well_formed nxt" if "parse_array n p t = Inr (nxt, p', t')" for p t nxt p' t'
    using assms(1) [of p t] that by simp
  have b: "well_formed nxt" if "parse_object n p t = Inr (nxt, p', t')" for p t nxt p' t'
    using assms(2) [of p t] that by simp
  show ?thesis
    by (auto simp: Let_def new_collect_op_def new_table_def a b
        split: if_splits sum.splits prod.splits)
qed

lemma parse_props_step:
  assumes "\<And>pos ts. parsed_ok (parse_array n pos ts)"
    and "\<And>pos ts. parsed_ok (parse_object n pos ts)"
    and "\<And>pos ts tab props. \<forall>p \<in> set props. well_formed (snd p)
           \<Longrightarrow> parsed_ok (parse_props n pos ts tab props)"
    and "\<forall>p \<in> set props. well_formed (snd p)"
  shows "parsed_ok (parse_props (Suc n) pos ts tab props)"
proof -
  obtain pr pos1 where pp: "parse_property (tl pos) = (pr, pos1)"
    by (cases "parse_property (tl pos)")
  define inner where "inner =
    (if cur pos1 = CHR '','' \<or> cur pos1 = CHR ''}'' \<or> cur pos1 = NUL then
       (case pr of
          None \<Rightarrow> Inl InvalidPattern
        | Some nm \<Rightarrow>
            (case (case tab of
                     None \<Rightarrow> new_table ts
                   | Some ti \<Rightarrow> (ti, ts)) of
               (ti, ts1) \<Rightarrow>
                 (case new_collect_op ti ts1 of
                    (cop, ts2) \<Rightarrow> Inr (nm, Some ti, cop, pos1, ts2))))
     else if cur pos1 = CHR ''{'' then
       (case pr of
          None \<Rightarrow> Inl InvalidMemoryAccess
        | Some nm \<Rightarrow>
            (case parse_object n pos1 ts of
               Inl e \<Rightarrow> Inl e
             | Inr (sub, pos2, ts2) \<Rightarrow> Inr (nm, tab, sub, pos2, ts2)))
     else if cur pos1 = CHR ''['' then
       (case pr of
          None \<Rightarrow> Inl InvalidMemoryAccess
        | Some nm \<Rightarrow>
            (case parse_array n pos1 ts of
               Inl e \<Rightarrow> Inl e
             | Inr (sub, pos2, ts2) \<Rightarrow> Inr (nm, tab, sub, pos2, ts2)))
     else Inl InvalidPattern)"
  have eq: "parse_props (Suc n) pos ts tab props =
     (case inner of
        Inl e \<Rightarrow> Inl e
      | Inr (nm, tab1, sub, pos2, ts2) \<Rightarrow>
          (let props1 = (nm, sub) # props; c = cur pos2 in
           if c = CHR '','' then parse_props n pos2 ts2 tab1 props1
           else if c \<noteq> CHR ''}'' \<and> c \<noteq> NUL then Inl InvalidPattern
           else if props1 = [] then Inl InvalidPattern
           else Inr (ObjectOp tab1 props1 False,
                     if c = CHR ''}'' then tl pos2 else pos2, ts2)))"
    unfolding inner_def by (simp only: parse_props.simps pp prod.case)
  show ?thesis
  proof (cases inner)
    case (Inl e)
    with eq show ?thesis by simp
  next
    case (Inr x)
    then obtain nm tab1 sub pos2 ts2 where x: "inner = Inr (nm, tab1, sub, pos2, ts2)"
      by (cases x) auto
    have wf: "well_formed sub"
    proof (cases "cur pos1 = CHR '','' \<or> cur pos1 = CHR ''}'' \<or> cur pos1 = NUL")
      case True
      with x show ?thesis
        unfolding inner_def
        by (auto simp: new_collect_op_def split: option.splits prod.splits)
    next
      case f1: False
      show ?thesis
      proof (cases "cur pos1 = CHR ''{''")
        case True
        with f1 x have "\<exists>p t. parse_object n pos1 ts = Inr (sub, p, t)"
          unfolding inner_def by (auto split: option.splits sum.splits)
        with assms(2) [of pos1 ts] show ?thesis by auto
      next
        case f2: False
        with f1 x have "\<exists>p t. parse_array n pos1 ts = Inr (sub, p, t)"
          unfolding inner_def by (auto split: option.splits sum.splits if_splits)
        with assms(1) [of pos1 ts] show ?thesis by auto
      qed
    qed
    with assms(4) have all: "\<forall>p \<in> set ((nm, sub) # props). well_formed (snd p)"
      by simp
    have rest: "parse_props (Suc n) pos ts tab props =
          (if cur pos2 = CHR '','' then parse_props n pos2 ts2 tab1 ((nm, sub) # props)
           else if cur pos2 \<noteq> CHR ''}'' \<and> cur pos2 \<noteq> NUL then Inl InvalidPattern
           else Inr (ObjectOp tab1 ((nm, sub) # props) False,
                     if cur pos2 = CHR ''}'' then tl pos2 else pos2, ts2))"
      unfolding eq x by (simp add: Let_def)
    show ?thesis
    proof (cases "cur pos2 = CHR '',''")
      case True
      with rest assms(3) [OF all, of pos2 ts2 tab1] show ?thesis by simp
    next
      case False
      with rest all show ?thesis by simp
    qed
  qed
qed

lemma parse_well_formed:
  "(\<forall>pos ts. parsed_ok (parse_array n pos ts))
   \<and> (\<forall>pos ts. parsed_ok (parse_object n pos ts))
   \<and> (\<forall>pos ts tab props. (\<forall>p \<in> set props. well_formed (snd p))
         \<longrightarrow> parsed_ok (parse_props n pos ts tab props))"
proof (induction n)
  case 0
  show ?case by simp
next
  case (Suc n)
  then have a: "\<And>pos ts. parsed_ok (parse_array n pos ts)"
    and b: "\<And>pos ts. parsed_ok (parse_object n pos ts)"
    and c: "\<And>pos ts tab props. \<forall>p \<in> set props. well_formed (snd p)
           \<Longrightarrow> parsed_ok (parse_props n pos ts tab props)"
    by blast+
  have "parsed_ok (parse_object (Suc n) pos ts)" for pos ts
    using c [of "[]" pos ts None] by simp
  with parse_array_step [OF a b] parse_props_step [OF a b c] show ?case
    by blast
qed

lemma parse_pattern_well_formed:
  assumes "parse_pattern pat = Inr (head, ts)"
  shows "well_formed head \<and> \<not> is_collect head"
proof -
  define pos where "pos = takeWhile (\<lambda>c. c \<noteq> NUL) pat"
  define r where "r = (if cur pos = CHR ''['' then parse_array (Suc (length pos)) pos []
            else if cur pos = CHR ''{'' then parse_object (Suc (length pos)) pos []
            else Inl InvalidPattern)"
  have ok: "parsed_ok r"
    unfolding r_def using parse_well_formed [of "Suc (length pos)"]
    by (simp only: parsed_ok_Inl split: if_split) blast
  from assms have "\<exists>pos1 ts1. r = Inr (head, pos1, ts1)"
    unfolding parse_pattern_def Let_def pos_def [symmetric] r_def [symmetric]
    by (cases r) auto
  with ok show ?thesis by auto
qed

lemma parse_pattern_find_root:
  assumes "parse_pattern pat = Inr (head, ts)"
  shows "\<exists>head'. find_root head = Inr (Some head')"
  using parse_pattern_well_formed [OF assms] find_root_well_formed by blast

subsection \<open>The parser never runs out of its bound\<close>

lemma quoted_name_length:
  "quoted_name esc s = (nm, pos) \<Longrightarrow> length pos \<le> length s"
proof (induction s arbitrary: esc nm pos)
  case Nil
  then show ?case by simp
next
  case (Cons c s)
  show ?case
  proof (cases "c = CHR 0x22 \<and> \<not> esc")
    case True
    with Cons.prems show ?thesis by simp
  next
    case False
    then obtain e nm' where "quoted_name e s = (nm', pos)"
      using Cons.prems by (auto split: if_splits prod.splits)
    from Cons.IH [OF this] show ?thesis by simp
  qed
qed

lemma parse_property_length:
  assumes "parse_property p = (pr, pos1)"
  shows "length pos1 \<le> length p \<and> (pr \<noteq> None \<longrightarrow> length pos1 < length p)"
proof (cases "cur p = CHR 0x22")
  case True
  then obtain cs where p: "p = CHR 0x22 # cs"
    by (cases p) (auto simp: cur_def NUL_def)
  from assms True obtain nm where "quoted_name False (tl p) = (nm, pos1)"
    by (auto simp: parse_property_def split: prod.splits)
  from quoted_name_length [OF this] p show ?thesis by simp
next
  case False
  let ?P = "\<lambda>c. \<not> is_name_end c"
  from assms False have pos1: "pos1 = dropWhile ?P p"
    and pr: "pr \<noteq> None \<longrightarrow> takeWhile ?P p \<noteq> []"
    by (auto simp: parse_property_def Let_def split: if_splits)
  have sum: "length (takeWhile ?P p) + length (dropWhile ?P p) = length p"
    by (metis length_append takeWhile_dropWhile_id)
  show ?thesis
  proof (cases pr)
    case None
    with pos1 show ?thesis by (simp add: length_dropWhile_le)
  next
    case (Some nm)
    with pr obtain x xs where "takeWhile ?P p = x # xs"
      by (cases "takeWhile ?P p") auto
    then have "length (takeWhile ?P p) = Suc (length xs)" by simp
    with sum have "length (dropWhile ?P p) < length p" by linarith
    with pos1 show ?thesis by simp
  qed
qed

text \<open>What one pass of the loop of \<open>parse_object\<close> does.\<close>

lemma parse_props_Suc:
  assumes "parse_property (tl pos) = (pr, pos1)"
  shows "(\<exists>e. parse_props (Suc n) pos ts tab props = Inl e \<and> e \<noteq> OutOfFuel)
    \<or> (\<exists>e. pr \<noteq> None \<and> cur pos1 = CHR ''{'' \<and> parse_object n pos1 ts = Inl e
            \<and> parse_props (Suc n) pos ts tab props = Inl e)
    \<or> (\<exists>e. pr \<noteq> None \<and> cur pos1 = CHR ''['' \<and> parse_array n pos1 ts = Inl e
            \<and> parse_props (Suc n) pos ts tab props = Inl e)
    \<or> (\<exists>nm tab1 sub pos2 ts2.
          pr = Some nm
          \<and> (pos2 = pos1
              \<or> cur pos1 = CHR ''{'' \<and> parse_object n pos1 ts = Inr (sub, pos2, ts2)
              \<or> cur pos1 = CHR ''['' \<and> parse_array n pos1 ts = Inr (sub, pos2, ts2))
          \<and> parse_props (Suc n) pos ts tab props =
               (if cur pos2 = CHR '','' then parse_props n pos2 ts2 tab1 ((nm, sub) # props)
                else if cur pos2 \<noteq> CHR ''}'' \<and> cur pos2 \<noteq> NUL then Inl InvalidPattern
                else Inr (ObjectOp tab1 ((nm, sub) # props) False,
                          if cur pos2 = CHR ''}'' then tl pos2 else pos2, ts2)))"
proof -
  define inner where "inner =
    (if cur pos1 = CHR '','' \<or> cur pos1 = CHR ''}'' \<or> cur pos1 = NUL then
       (case pr of
          None \<Rightarrow> Inl InvalidPattern
        | Some nm \<Rightarrow>
            (case (case tab of
                     None \<Rightarrow> new_table ts
                   | Some ti \<Rightarrow> (ti, ts)) of
               (ti, ts1) \<Rightarrow>
                 (case new_collect_op ti ts1 of
                    (cop, ts2) \<Rightarrow> Inr (nm, Some ti, cop, pos1, ts2))))
     else if cur pos1 = CHR ''{'' then
       (case pr of
          None \<Rightarrow> Inl InvalidMemoryAccess
        | Some nm \<Rightarrow>
            (case parse_object n pos1 ts of
               Inl e \<Rightarrow> Inl e
             | Inr (sub, pos2, ts2) \<Rightarrow> Inr (nm, tab, sub, pos2, ts2)))
     else if cur pos1 = CHR ''['' then
       (case pr of
          None \<Rightarrow> Inl InvalidMemoryAccess
        | Some nm \<Rightarrow>
            (case parse_array n pos1 ts of
               Inl e \<Rightarrow> Inl e
             | Inr (sub, pos2, ts2) \<Rightarrow> Inr (nm, tab, sub, pos2, ts2)))
     else Inl InvalidPattern)"
  have eq: "parse_props (Suc n) pos ts tab props =
     (case inner of
        Inl e \<Rightarrow> Inl e
      | Inr (nm, tab1, sub, pos2, ts2) \<Rightarrow>
          (let props1 = (nm, sub) # props; c = cur pos2 in
           if c = CHR '','' then parse_props n pos2 ts2 tab1 props1
           else if c \<noteq> CHR ''}'' \<and> c \<noteq> NUL then Inl InvalidPattern
           else if props1 = [] then Inl InvalidPattern
           else Inr (ObjectOp tab1 props1 False,
                     if c = CHR ''}'' then tl pos2 else pos2, ts2)))"
    unfolding inner_def by (simp only: parse_props.simps assms prod.case)
  show ?thesis
  proof (cases inner)
    case (Inl e)
    with eq have r: "parse_props (Suc n) pos ts tab props = Inl e" by simp
    from Inl have "e \<noteq> OutOfFuel
        \<or> (pr \<noteq> None \<and> cur pos1 = CHR ''{'' \<and> parse_object n pos1 ts = Inl e)
        \<or> (pr \<noteq> None \<and> cur pos1 = CHR ''['' \<and> parse_array n pos1 ts = Inl e)"
      unfolding inner_def
      by (auto split: if_splits option.splits sum.splits prod.splits)
    with r show ?thesis by blast
  next
    case (Inr x)
    then obtain nm tab1 sub pos2 ts2 where x: "inner = Inr (nm, tab1, sub, pos2, ts2)"
      by (cases x) auto
    then have how: "pr = Some nm
        \<and> (pos2 = pos1
            \<or> cur pos1 = CHR ''{'' \<and> parse_object n pos1 ts = Inr (sub, pos2, ts2)
            \<or> cur pos1 = CHR ''['' \<and> parse_array n pos1 ts = Inr (sub, pos2, ts2))"
      unfolding inner_def
      by (auto split: if_splits option.splits sum.splits prod.splits)
    have "parse_props (Suc n) pos ts tab props =
          (if cur pos2 = CHR '','' then parse_props n pos2 ts2 tab1 ((nm, sub) # props)
           else if cur pos2 \<noteq> CHR ''}'' \<and> cur pos2 \<noteq> NUL then Inl InvalidPattern
           else Inr (ObjectOp tab1 ((nm, sub) # props) False,
                     if cur pos2 = CHR ''}'' then tl pos2 else pos2, ts2))"
      unfolding eq x by (simp add: Let_def)
    with how show ?thesis by blast
  qed
qed

lemma shorter_Inl [simp]: "shorter pos (Inl e)"
  by (simp add: shorter_def)

lemma shorter_Inr [simp]: "shorter pos (Inr (op, pos1, ts)) = (length pos1 < length pos)"
  by (simp add: shorter_def)

lemma cur_nonempty: "cur pos = c \<Longrightarrow> c \<noteq> NUL \<Longrightarrow> pos \<noteq> []"
  by (auto simp: cur_def)

lemma char_not_NUL:
  "CHR ''['' \<noteq> NUL" "CHR ''{'' \<noteq> NUL" "CHR '','' \<noteq> NUL" "CHR ''}'' \<noteq> NUL"
  by (simp_all add: NUL_def)

text \<open>What \<open>parse_array\<close> does.\<close>

lemma parse_array_Suc:
  "(\<exists>e. parse_array (Suc n) pos ts = Inl e \<and> e \<noteq> OutOfFuel)
   \<or> (\<exists>e. cur pos = CHR ''['' \<and> cur (tl pos) = CHR ''['' \<and> parse_array n (tl pos) ts = Inl e
           \<and> parse_array (Suc n) pos ts = Inl e)
   \<or> (\<exists>e. cur pos = CHR ''['' \<and> cur (tl pos) = CHR ''{'' \<and> parse_object n (tl pos) ts = Inl e
           \<and> parse_array (Suc n) pos ts = Inl e)
   \<or> (\<exists>tab nxt pos2 ts2.
         cur pos = CHR ''[''
         \<and> (pos2 = tl (tl pos) \<and> is_collect nxt
             \<or> parse_array n (tl pos) ts = Inr (nxt, pos2, ts2)
             \<or> parse_object n (tl pos) ts = Inr (nxt, pos2, ts2))
         \<and> parse_array (Suc n) pos ts =
              (if cur pos2 = NUL then Inr (ArrayOp tab nxt False, pos2, ts2)
               else if cur pos2 = CHR '']'' then Inr (ArrayOp tab nxt False, tl pos2, ts2)
               else Inl InvalidPattern))"
proof (cases "cur pos = CHR ''[''")
  case False
  then show ?thesis by simp
next
  case True
  define inner where "inner =
    (if cur (tl pos) = CHR ''*'' then
       (case new_table ts of
          (ti, ts1) \<Rightarrow>
            (case new_collect_op ti ts1 of
               (cop, ts2) \<Rightarrow> Inr (Some ti, cop, tl (tl pos), ts2)))
     else if cur (tl pos) = CHR ''['' then
       (case parse_array n (tl pos) ts of
          Inl e \<Rightarrow> Inl e
        | Inr (nxt, pos2, ts2) \<Rightarrow> Inr (None, nxt, pos2, ts2))
     else if cur (tl pos) = CHR ''{'' then
       (case parse_object n (tl pos) ts of
          Inl e \<Rightarrow> Inl e
        | Inr (nxt, pos2, ts2) \<Rightarrow> Inr (None, nxt, pos2, ts2))
     else Inl InvalidPattern)"
  have eq: "parse_array (Suc n) pos ts =
     (case inner of
        Inl e \<Rightarrow> Inl e
      | Inr (tab, nxt, pos2, ts2) \<Rightarrow>
          if cur pos2 = NUL then Inr (ArrayOp tab nxt False, pos2, ts2)
          else if cur pos2 = CHR '']'' then Inr (ArrayOp tab nxt False, tl pos2, ts2)
          else Inl InvalidPattern)"
    unfolding inner_def using True by (simp only: parse_array.simps Let_def) simp
  show ?thesis
  proof (cases inner)
    case (Inl e)
    with eq have r: "parse_array (Suc n) pos ts = Inl e" by simp
    from Inl have "e \<noteq> OutOfFuel
        \<or> (cur (tl pos) = CHR ''['' \<and> parse_array n (tl pos) ts = Inl e)
        \<or> (cur (tl pos) = CHR ''{'' \<and> parse_object n (tl pos) ts = Inl e)"
      unfolding inner_def
      by (auto split: if_splits sum.splits prod.splits)
    with r True show ?thesis by blast
  next
    case (Inr x)
    then obtain tab nxt pos2 ts2 where x: "inner = Inr (tab, nxt, pos2, ts2)"
      by (cases x) auto
    then have how: "pos2 = tl (tl pos) \<and> is_collect nxt
        \<or> parse_array n (tl pos) ts = Inr (nxt, pos2, ts2)
        \<or> parse_object n (tl pos) ts = Inr (nxt, pos2, ts2)"
      unfolding inner_def
      by (auto simp: new_collect_op_def split: if_splits sum.splits prod.splits)
    have "parse_array (Suc n) pos ts =
          (if cur pos2 = NUL then Inr (ArrayOp tab nxt False, pos2, ts2)
           else if cur pos2 = CHR '']'' then Inr (ArrayOp tab nxt False, tl pos2, ts2)
           else Inl InvalidPattern)"
      unfolding eq x by simp
    with how True show ?thesis by blast
  qed
qed

lemma parse_shorter:
  "(\<forall>pos ts. shorter pos (parse_array n pos ts))
   \<and> (\<forall>pos ts. shorter pos (parse_object n pos ts))
   \<and> (\<forall>pos ts tab props. shorter pos (parse_props n pos ts tab props))"
proof (induction n)
  case 0
  show ?case by simp
next
  case (Suc n)
  then have a: "\<And>pos ts. shorter pos (parse_array n pos ts)"
    and b: "\<And>pos ts. shorter pos (parse_object n pos ts)"
    and c: "\<And>pos ts tab props. shorter pos (parse_props n pos ts tab props)"
    by blast+
  have A: "shorter pos (parse_array (Suc n) pos ts)" for pos ts
  proof -
    from parse_array_Suc [of n pos ts] consider
      e where "parse_array (Suc n) pos ts = Inl e"
      | tab nxt pos2 ts2 where "cur pos = CHR ''[''"
        "pos2 = tl (tl pos) \<or> parse_array n (tl pos) ts = Inr (nxt, pos2, ts2)
           \<or> parse_object n (tl pos) ts = Inr (nxt, pos2, ts2)"
        "parse_array (Suc n) pos ts =
              (if cur pos2 = NUL then Inr (ArrayOp tab nxt False, pos2, ts2)
               else if cur pos2 = CHR '']'' then Inr (ArrayOp tab nxt False, tl pos2, ts2)
               else Inl InvalidPattern)"
      by blast
    then show ?thesis
    proof cases
      case 1
      then show ?thesis by simp
    next
      case 2
      from 2(1) have ne: "pos \<noteq> []" by (rule cur_nonempty) (rule char_not_NUL)
      from 2(2) a [of "tl pos" ts] b [of "tl pos" ts]
      have "length pos2 \<le> length (tl pos)" by auto
      with ne have "length pos2 < length pos" by (cases pos) auto
      with 2(3) show ?thesis by auto
    qed
  qed
  have P: "shorter pos (parse_props (Suc n) pos ts tab props)" for pos ts tab props
  proof -
    obtain pr pos1 where pp: "parse_property (tl pos) = (pr, pos1)"
      by (cases "parse_property (tl pos)")
    from parse_props_Suc [OF pp, of n ts tab props] consider
      e where "parse_props (Suc n) pos ts tab props = Inl e"
      | nm tab1 sub pos2 ts2 where "pr = Some nm"
        "pos2 = pos1 \<or> parse_object n pos1 ts = Inr (sub, pos2, ts2)
           \<or> parse_array n pos1 ts = Inr (sub, pos2, ts2)"
        "parse_props (Suc n) pos ts tab props =
               (if cur pos2 = CHR '','' then parse_props n pos2 ts2 tab1 ((nm, sub) # props)
                else if cur pos2 \<noteq> CHR ''}'' \<and> cur pos2 \<noteq> NUL then Inl InvalidPattern
                else Inr (ObjectOp tab1 ((nm, sub) # props) False,
                          if cur pos2 = CHR ''}'' then tl pos2 else pos2, ts2))"
      by blast
    then show ?thesis
    proof cases
      case 1
      then show ?thesis by simp
    next
      case 2
      from parse_property_length [OF pp] 2(1) have "length pos1 < length (tl pos)" by simp
      then have "length pos1 < length pos" by (cases pos) auto
      with 2(2) a [of pos1 ts] b [of pos1 ts] have l2: "length pos2 < length pos" by auto
      show ?thesis
      proof (cases "cur pos2 = CHR '',''")
        case True
        with 2(3) c [of pos2 ts2 tab1 "(nm, sub) # props"] l2 show ?thesis
          by (cases "parse_props n pos2 ts2 tab1 ((nm, sub) # props)") auto
      next
        case False
        with 2(3) l2 show ?thesis by auto
      qed
    qed
  qed
  have "shorter pos (parse_object (Suc n) pos ts)" for pos ts
    using c [of pos ts None "[]"] by simp
  with A P show ?case by blast
qed

lemma shorterD:
  "parse_array n pos ts = Inr (op, pos1, ts1) \<Longrightarrow> length pos1 < length pos"
  "parse_object n pos ts = Inr (op, pos1, ts1) \<Longrightarrow> length pos1 < length pos"
proof -
  from parse_shorter [of n] have "shorter pos (parse_array n pos ts)"
    "shorter pos (parse_object n pos ts)" by blast+
  then show "parse_array n pos ts = Inr (op, pos1, ts1) \<Longrightarrow> length pos1 < length pos"
    "parse_object n pos ts = Inr (op, pos1, ts1) \<Longrightarrow> length pos1 < length pos"
    by simp_all
qed

lemma parse_fuel: "fuel_ok n"
proof (induction n rule: less_induct)
  case (less n)
  have FP: "parse_props n pos ts tab props \<noteq> Inl OutOfFuel"
    if "pos \<noteq> []" "length pos \<le> n" for pos ts tab props
  proof -
    from that obtain n' where n: "n = Suc n'" by (cases n; cases pos) auto
    obtain pr pos1 where pp: "parse_property (tl pos) = (pr, pos1)"
      by (cases "parse_property (tl pos)")
    note len = parse_property_length [OF pp]
    from that n have tl: "length (tl pos) \<le> n'" by (cases pos) auto
    have sub: "parse_object n' pos1 ts \<noteq> Inl OutOfFuel \<and> parse_array n' pos1 ts \<noteq> Inl OutOfFuel"
      if "pr \<noteq> None" "pos1 \<noteq> []"
    proof -
      from len that(1) tl have "length pos1 < n'" by simp
      with that(2) obtain n'' where n': "n' = Suc n''" and l: "length pos1 \<le> n''"
        by (cases n') auto
      from n n' have "n'' < n" by simp
      from less.IH [OF this] l show ?thesis
        unfolding n' fuel_ok_def by blast
    qed
    from parse_props_Suc [OF pp, of n' ts tab props] consider
      (fail) e where "parse_props (Suc n') pos ts tab props = Inl e" "e \<noteq> OutOfFuel"
      | (obj) e where "pr \<noteq> None" "cur pos1 = CHR ''{''" "parse_object n' pos1 ts = Inl e"
          "parse_props (Suc n') pos ts tab props = Inl e"
      | (arr) e where "pr \<noteq> None" "cur pos1 = CHR ''[''" "parse_array n' pos1 ts = Inl e"
          "parse_props (Suc n') pos ts tab props = Inl e"
      | (ok) nm tab1 sub pos2 ts2 where "pr = Some nm"
        "pos2 = pos1 \<or> parse_object n' pos1 ts = Inr (sub, pos2, ts2)
           \<or> parse_array n' pos1 ts = Inr (sub, pos2, ts2)"
        "parse_props (Suc n') pos ts tab props =
               (if cur pos2 = CHR '','' then parse_props n' pos2 ts2 tab1 ((nm, sub) # props)
                else if cur pos2 \<noteq> CHR ''}'' \<and> cur pos2 \<noteq> NUL then Inl InvalidPattern
                else Inr (ObjectOp tab1 ((nm, sub) # props) False,
                          if cur pos2 = CHR ''}'' then tl pos2 else pos2, ts2))"
      by blast
    then show ?thesis
    proof cases
      case fail
      then show ?thesis unfolding n by simp
    next
      case obj
      from obj(2) have "pos1 \<noteq> []" by (rule cur_nonempty) (rule char_not_NUL)
      from sub [OF obj(1) this] obj(3,4) show ?thesis unfolding n by auto
    next
      case arr
      from arr(2) have "pos1 \<noteq> []" by (rule cur_nonempty) (rule char_not_NUL)
      from sub [OF arr(1) this] arr(3,4) show ?thesis unfolding n by auto
    next
      case ok
      from ok(2) shorterD have "length pos2 \<le> length pos1" by fastforce
      with len tl have l2: "length pos2 \<le> n'" by simp
      show ?thesis
      proof (cases "cur pos2 = CHR '',''")
        case True
        then have ne: "pos2 \<noteq> []" by (rule cur_nonempty) (rule char_not_NUL)
        from n have "n' < n" by simp
        from less.IH [OF this] ne l2
        have "parse_props n' pos2 ts2 tab1 ((nm, sub) # props) \<noteq> Inl OutOfFuel"
          unfolding fuel_ok_def by blast
        with ok(3) True show ?thesis unfolding n by simp
      next
        case False
        with ok(3) show ?thesis unfolding n by simp
      qed
    qed
  qed
  have FO: "parse_object (Suc n) pos ts \<noteq> Inl OutOfFuel" if "length pos \<le> n" for pos ts
  proof (cases "cur pos = CHR ''{''")
    case True
    then have "pos \<noteq> []" by (rule cur_nonempty) (rule char_not_NUL)
    from FP [OF this that] True show ?thesis by simp
  next
    case False
    then show ?thesis by simp
  qed
  have FA: "parse_array (Suc n) pos ts \<noteq> Inl OutOfFuel" if "length pos \<le> n" for pos ts
  proof -
    have sub: "parse_array n (tl pos) ts \<noteq> Inl OutOfFuel
               \<and> parse_object n (tl pos) ts \<noteq> Inl OutOfFuel"
      if "cur pos = CHR ''[''" "tl pos \<noteq> []"
    proof -
      from that(1) have "pos \<noteq> []" by (rule cur_nonempty) (rule char_not_NUL)
      with \<open>length pos \<le> n\<close> obtain n' where n: "n = Suc n'" and l: "length (tl pos) \<le> n'"
        by (cases n; cases pos) auto
      from n have "n' < n" by simp
      from less.IH [OF this] l show ?thesis
        unfolding n fuel_ok_def by blast
    qed
    from parse_array_Suc [of n pos ts] consider
      (fail) e where "parse_array (Suc n) pos ts = Inl e" "e \<noteq> OutOfFuel"
      | (arr) e where "cur pos = CHR ''[''" "cur (tl pos) = CHR ''[''"
          "parse_array n (tl pos) ts = Inl e" "parse_array (Suc n) pos ts = Inl e"
      | (obj) e where "cur pos = CHR ''[''" "cur (tl pos) = CHR ''{''"
          "parse_object n (tl pos) ts = Inl e" "parse_array (Suc n) pos ts = Inl e"
      | (ok) tab nxt pos2 ts2 where
          "parse_array (Suc n) pos ts =
              (if cur pos2 = NUL then Inr (ArrayOp tab nxt False, pos2, ts2)
               else if cur pos2 = CHR '']'' then Inr (ArrayOp tab nxt False, tl pos2, ts2)
               else Inl InvalidPattern)"
      by blast
    then show ?thesis
    proof cases
      case fail
      then show ?thesis by simp
    next
      case arr
      from arr(2) have "tl pos \<noteq> []" by (rule cur_nonempty) (rule char_not_NUL)
      from sub [OF arr(1) this] arr(3,4) show ?thesis by auto
    next
      case obj
      from obj(2) have "tl pos \<noteq> []" by (rule cur_nonempty) (rule char_not_NUL)
      from sub [OF obj(1) this] obj(3,4) show ?thesis by auto
    next
      case ok
      then show ?thesis by (simp split: if_splits)
    qed
  qed
  from FA FO FP show ?case unfolding fuel_ok_def by blast
qed

text \<open>The fuel \<open>parse_pattern\<close> gives is enough for every pattern.\<close>

lemma parse_pattern_fuel: "parse_pattern pat \<noteq> Inl OutOfFuel"
proof -
  define pos where "pos = takeWhile (\<lambda>c. c \<noteq> NUL) pat"
  define r where "r = (if cur pos = CHR ''['' then parse_array (Suc (length pos)) pos []
            else if cur pos = CHR ''{'' then parse_object (Suc (length pos)) pos []
            else Inl InvalidPattern)"
  have "r \<noteq> Inl OutOfFuel"
    unfolding r_def using parse_fuel [of "length pos"]
    by (simp only: fuel_ok_def split: if_split) blast
  moreover have "parse_pattern pat = (case r of Inl e \<Rightarrow> Inl e
      | Inr (op, pos1, ts) \<Rightarrow> Inr (op, map init_table ts))"
    unfolding parse_pattern_def Let_def pos_def [symmetric] r_def [symmetric] ..
  ultimately show ?thesis
    by (cases r) auto
qed

text \<open>
  Claim C9. For every pattern that compiles (\<open>parse_pattern\<close> returns a tree, not
  \<^verbatim>\<open>NULL\<close>), \<open>find_root\<close> returns true, having marked a node of the tree: the \<^verbatim>\<open>abort\<close>
  of \<^verbatim>\<open>main\<close> is never reached.
\<close>

theorem compiled_pattern_has_root:
  assumes "parse_pattern pat = Inr (head, ts)"
  shows "\<exists>head'. find_root head = Inr (Some head')"
  using assms by (rule parse_pattern_find_root)

theorem compiled_pattern_has_root_witness:
  "parse_pattern ''[{a{b,c}}]'' =
     Inr (ArrayOp None
            (ObjectOp None
               [(''a'', ObjectOp (Some 0) [(''c'', CollectOp 0 1), (''b'', CollectOp 0 0)] False)]
               False)
            False,
          [\<lparr>ncols = 2, rows = [], newrow = [None, None]\<rparr>])
   \<and> (\<exists>head'. find_root (ArrayOp None
            (ObjectOp None
               [(''a'', ObjectOp (Some 0) [(''c'', CollectOp 0 1), (''b'', CollectOp 0 0)] False)]
               False)
            False) = Inr (Some head'))"
proof -
  have p: "parse_pattern ''[{a{b,c}}]'' =
     Inr (ArrayOp None
            (ObjectOp None
               [(''a'', ObjectOp (Some 0) [(''c'', CollectOp 0 1), (''b'', CollectOp 0 0)] False)]
               False)
            False,
          [\<lparr>ncols = 2, rows = [], newrow = [None, None]\<rparr>])"
    by (simp add: jl_eval numeral_2_eq_2 cong: weak_congs)
  from compiled_pattern_has_root [OF p] p show ?thesis by simp
qed

section \<open>An input without a value\<close>

lemma skip_ws_blank:
  "list_all is_ws s \<Longrightarrow>
   skip_ws \<lparr>input = s, unread = NUL, peek = None\<rparr>
     = (NUL, \<lparr>input = [], unread = NUL, peek = None\<rparr>)"
proof (induction s)
  case Nil
  show ?case by (subst skip_ws.simps) (simp add: read_char_def is_ws_def NUL_def)
next
  case (Cons c s)
  then have "is_ws c" "list_all is_ws s" by simp_all
  with Cons.IH show ?case
    by (subst skip_ws.simps) (simp add: read_char_def)
qed

lemma peek_token_blank:
  assumes "list_all is_ws s"
  shows "peek_token (init_lexer s)
         = Inr (eof_token, \<lparr>input = [], unread = NUL, peek = Some eof_token\<rparr>)"
  using skip_ws_blank [OF assms]
  by (simp add: peek_token_def next_token_def read_token_def init_lexer_def mk_token_def
      eof_token_def)

lemma skip_value_eof:
  assumes "peek lx = Some eof_token"
  shows "skip_value (Suc n) lx = Inl UnexpectedTokenType"
  using assms by (simp add: peek_token_def eof_token_def is_literal_def)

lemma run_op_eof:
  assumes "peek_token (lexer st) = Inr (eof_token, lx1)" "peek lx1 = Some eof_token"
    "\<not> is_collect op"
  shows "run_op (Suc (Suc n)) fieldsep op st = Inl UnexpectedTokenType"
proof (cases op)
  case (ArrayOp tab nxt isroot)
  have "run_op (Suc (Suc n)) fieldsep (ArrayOp tab nxt isroot) st
        = skip_value_st (Suc n) (st\<lparr>lexer := lx1\<rparr>)"
    by (simp only: run_op.simps assms(1) sum.case prod.case)
       (simp add: eof_token_def)
  with ArrayOp assms(2) show ?thesis
    by (simp only: skip_value_st_def) (simp add: skip_value_eof del: skip_value.simps)
next
  case (ObjectOp tab props isroot)
  have "run_op (Suc (Suc n)) fieldsep (ObjectOp tab props isroot) st
        = skip_value_st (Suc n) (st\<lparr>lexer := lx1\<rparr>)"
    by (simp only: run_op.simps assms(1) sum.case prod.case)
       (simp add: eof_token_def)
  with ObjectOp assms(2) show ?thesis
    by (simp only: skip_value_st_def) (simp add: skip_value_eof del: skip_value.simps)
next
  case (CollectOp ti col)
  with assms(3) show ?thesis by simp
qed

lemma find_root_not_collect:
  "find_root op = Inr (Some op') \<Longrightarrow> \<not> is_collect op'"
  by (induction op rule: find_root.induct)
     (auto split: if_splits sum.splits option.splits)

text \<open>
  Claim C10. On an input without a value (empty, or only whitespace) the program, with
  any pattern that compiles, ends in the fatal error "unexpected token type": \<^verbatim>\<open>main\<close> runs
  the top operator once before it looks for \<^verbatim>\<open>T_EOF\<close>, and an Array or Object operator
  that meets \<^verbatim>\<open>T_EOF\<close> calls \<^verbatim>\<open>skip_value\<close>, which rejects it.
\<close>

theorem no_value_is_fatal:
  assumes "list_all is_ws s" "parse_pattern pat = Inr (head, ts)"
  shows "jl (Suc (Suc (Suc n))) fieldsep pat s = Inl UnexpectedTokenType"
proof -
  from parse_pattern_find_root [OF assms(2)] obtain head' where
    fr: "find_root head = Inr (Some head')" by blast
  then have nc: "\<not> is_collect head'" by (rule find_root_not_collect)
  have pk: "peek_token (lexer (init_state ts s))
            = Inr (eof_token, \<lparr>input = [], unread = NUL, peek = Some eof_token\<rparr>)"
    using peek_token_blank [OF assms(1)] by (simp add: init_state_def)
  have "run_op (Suc (Suc n)) fieldsep head' (init_state ts s) = Inl UnexpectedTokenType"
    by (rule run_op_eof [OF pk _ nc]) simp
  then have "main_loop (Suc (Suc (Suc n))) fieldsep head' (init_state ts s)
             = Inl UnexpectedTokenType"
    by (simp only: main_loop.simps sum.case)
  with assms(2) fr show ?thesis
    by (simp add: jl_def)
qed

theorem no_value_is_fatal_witness:
  "list_all is_ws [CHR '' '', CHR 0x0A]
   \<and> parse_pattern ''[*]'' = Inr (ArrayOp (Some 0) (CollectOp 0 0) False,
                                  [\<lparr>ncols = 1, rows = [], newrow = [None]\<rparr>])
   \<and> jl 3 [CHR 0x09] ''[*]'' [CHR '' '', CHR 0x0A] = Inl UnexpectedTokenType
   \<and> jl 3 [CHR 0x09] ''[*]'' [] = Inl UnexpectedTokenType"
proof -
  have w: "list_all is_ws [CHR '' '', CHR 0x0A]" "list_all is_ws []"
    by (simp_all add: is_ws_def)
  have p: "parse_pattern ''[*]'' = Inr (ArrayOp (Some 0) (CollectOp 0 0) False,
                                  [\<lparr>ncols = 1, rows = [], newrow = [None]\<rparr>])"
    by (simp add: jl_eval cong: weak_congs)
  have n: "(3::nat) = Suc (Suc (Suc 0))" by simp
  from no_value_is_fatal [OF w(1) p, of 0 "[CHR 0x09]"]
    no_value_is_fatal [OF w(2) p, of 0 "[CHR 0x09]"] w p
  show ?thesis by (simp only: n)
qed

section \<open>The empty string\<close>

lemma peek_token_again:
  assumes "peek_token lx = Inr (t, lx1)"
  shows "peek_token lx1 = Inr (t, lx1)"
  using assms
  by (auto simp: peek_token_def split: option.splits sum.splits)

lemma run_op_peeked:
  assumes "peek_token lx = Inr (t, lx1)"
  shows "run_op n fieldsep op (st\<lparr>lexer := lx1\<rparr>) = run_op n fieldsep op (st\<lparr>lexer := lx\<rparr>)"
proof (cases n)
  case 0
  then show ?thesis by simp
next
  case (Suc m)
  note pk = assms peek_token_again [OF assms]
  show ?thesis
  proof (cases op)
    case (ArrayOp tab nxt isroot)
    show ?thesis
      unfolding Suc ArrayOp
      by (simp add: pk cong: sum.case_cong prod.case_cong if_cong)
  next
    case (ObjectOp tab props isroot)
    show ?thesis
      unfolding Suc ObjectOp
      by (simp add: pk cong: sum.case_cong prod.case_cong if_cong)
  next
    case (CollectOp ti col)
    show ?thesis
      unfolding Suc CollectOp
      by (simp add: pk run_collect_op_def cong: sum.case_cong prod.case_cong if_cong)
  qed
qed

lemma run_array_loop_peeked:
  assumes "peek_token lx = Inr (t, lx1)"
  shows "run_array_loop n fieldsep tab nxt (st\<lparr>lexer := lx1\<rparr>)
         = run_array_loop n fieldsep tab nxt (st\<lparr>lexer := lx\<rparr>)"
proof (cases n)
  case 0
  then show ?thesis by simp
next
  case (Suc m)
  show ?thesis
    unfolding Suc by (simp add: run_op_peeked [OF assms])
qed

lemma read_token_cases:
  "read_token (at_input (QUOTE # QUOTE # r)) = Inr (empty_string_token, at_input r)"
  "read_token (at_input (CHR '','' # r)) = Inr (\<lparr>ttype = T_MEMBERSEP, ttext = '',''\<rparr>, at_input r)"
  "read_token (at_input (CHR '']'' # r)) = Inr (\<lparr>ttype = T_ENDARRAY, ttext = '']''\<rparr>, at_input r)"
  "read_token (at_input (CHR ''['' # r)) = Inr (\<lparr>ttype = T_BEGINARRAY, ttext = ''[''\<rparr>, at_input r)"
  "read_token (at_input []) = Inr (eof_token, at_input [])"
  by (simp_all add: rec_simps lex_defs QUOTE_def empty_string_token_def eof_token_def)

lemma next_token_at_input: "next_token (at_input s) = read_token (at_input s)"
  by (simp add: next_token_def)

lemma peek_token_at_input:
  "read_token (at_input s) = Inr (t, at_input r)
   \<Longrightarrow> peek_token (at_input s) = Inr (t, \<lparr>input = r, unread = NUL, peek = Some t\<rparr>)"
  by (simp add: peek_token_def next_token_def)

lemma next_token_peeked:
  "next_token \<lparr>input = r, unread = NUL, peek = Some t\<rparr> = Inr (t, at_input r)"
  by (simp add: next_token_def)

lemma add_value_empty:
  assumes "newrow t ! col = None"
  shows "add_value t col [] = t"
proof -
  have "(newrow t)[col := None] = newrow t"
    using assms list_update_id [of "newrow t" col] by simp
  with assms show ?thesis
    by (simp add: add_value_def buf_len_def)
qed

lemma add_value_empty_cell:
  "col < length (newrow t) \<Longrightarrow> buf_len (newrow (add_value t col []) ! col) = 0"
  by (auto simp: add_value_def buf_len_def Let_def split: option.splits)

lemma add_row_one_column: "add_row one_column = one_column"
  by (simp add: add_row_def hasval_def one_column_def buf_len_def)

lemma collect_empty_string:
  "run_collect_op n 0 0 \<lparr>lexer = at_input (QUOTE # QUOTE # r), tables = [one_column], out = w\<rparr>
   = Inr \<lparr>lexer = at_input r, tables = [one_column], out = w\<rparr>"
proof -
  have "newrow one_column ! 0 = None" by (simp add: one_column_def)
  then have "add_value one_column 0 [] = one_column" by (rule add_value_empty)
  then show ?thesis
    by (simp add: run_collect_op_def peek_token_at_input [OF read_token_cases(1)]
        next_token_peeked empty_string_token_def is_literal_def one_column_def)
qed

lemma empty_strings_loop:
  "run_array_loop (Suc (Suc (k + m))) fieldsep (Some 0) (CollectOp 0 0)
     \<lparr>lexer = at_input (empties k), tables = [one_column], out = w\<rparr>
   = Inr \<lparr>lexer = at_input [], tables = [one_column], out = w\<rparr>"
proof (induction k)
  case 0
  show ?case
    by (simp add: collect_empty_string add_row_of_def add_row_one_column
        next_token_at_input read_token_cases)
next
  case (Suc k)
  have "run_array_loop (Suc (Suc (Suc k + m))) fieldsep (Some 0) (CollectOp 0 0)
          \<lparr>lexer = at_input (empties (Suc k)), tables = [one_column], out = w\<rparr>
        = run_array_loop (Suc (Suc (k + m))) fieldsep (Some 0) (CollectOp 0 0)
          \<lparr>lexer = at_input (empties k), tables = [one_column], out = w\<rparr>"
    by (subst run_array_loop.simps)
       (simp add: collect_empty_string add_row_of_def add_row_one_column
        next_token_at_input read_token_cases del: run_array_loop.simps)
  with Suc.IH show ?case by simp
qed

lemma empties_quotes: "\<exists>r. empties k = QUOTE # QUOTE # r"
  by (cases k) simp_all

lemma flush_no_rows: "flush_tables fieldsep [one_column] w = ([one_column], w)"
  by (simp add: flush_tables_eq has_rows_def reset_table_def one_column_def nrows_def)

lemma run_op_empty_strings:
  "run_op (Suc (Suc (Suc (k + m)))) fieldsep (ArrayOp (Some 0) (CollectOp 0 0) True)
     \<lparr>lexer = at_input (empty_strings k), tables = [one_column], out = []\<rparr>
   = Inr \<lparr>lexer = at_input [], tables = [one_column], out = []\<rparr>"
proof -
  let ?st = "\<lparr>lexer = at_input (empties k), tables = [one_column], out = []\<rparr>"
  obtain r where r: "empties k = QUOTE # QUOTE # r"
    using empties_quotes by blast
  have pk: "peek_token (at_input (empties k))
            = Inr (empty_string_token, \<lparr>input = r, unread = NUL, peek = Some empty_string_token\<rparr>)"
    unfolding r by (rule peek_token_at_input [OF read_token_cases(1)])
  have "run_array_loop (Suc (Suc (k + m))) fieldsep (Some 0) (CollectOp 0 0)
          (?st\<lparr>lexer := \<lparr>input = r, unread = NUL, peek = Some empty_string_token\<rparr>\<rparr>)
        = run_array_loop (Suc (Suc (k + m))) fieldsep (Some 0) (CollectOp 0 0)
          (?st\<lparr>lexer := at_input (empties k)\<rparr>)"
    by (rule run_array_loop_peeked [OF pk])
  then have loop:
    "run_array_loop (Suc (Suc (k + m))) fieldsep (Some 0) (CollectOp 0 0)
       \<lparr>lexer = \<lparr>input = r, unread = NUL, peek = Some empty_string_token\<rparr>,
        tables = [one_column], out = []\<rparr>
     = Inr \<lparr>lexer = at_input [], tables = [one_column], out = []\<rparr>"
    by (simp add: empty_strings_loop del: run_array_loop.simps)
  show ?thesis
    by (simp add: empty_strings_def peek_token_at_input [OF read_token_cases(4)]
        accept_def next_token_peeked pk loop empty_string_token_def [symmetric]
        add_row_of_def add_row_one_column flush_if_def flush_no_rows
        del: run_array_loop.simps)
       (simp add: empty_string_token_def)
qed

lemma parse_star: "parse_pattern ''[*]'' = Inr (ArrayOp (Some 0) (CollectOp 0 0) False, [one_column])"
  by (simp add: jl_eval one_column_def cong: weak_congs)

lemma jl_empty_strings: "jl (k + m + 4) fieldsep ''[*]'' (empty_strings k) = Inr []"
proof -
  have f: "k + m + 4 = Suc (Suc (Suc (Suc (k + m))))" by simp
  have "main_loop (Suc (Suc (Suc (Suc (k + m))))) fieldsep (ArrayOp (Some 0) (CollectOp 0 0) True)
          \<lparr>lexer = at_input (empty_strings k), tables = [one_column], out = []\<rparr>
        = Inr \<lparr>lexer = \<lparr>input = [], unread = NUL, peek = Some eof_token\<rparr>,
                tables = [one_column], out = []\<rparr>"
    by (subst main_loop.simps)
       (simp add: run_op_empty_strings peek_token_at_input [OF read_token_cases(5)]
        eof_token_def del: run_op.simps main_loop.simps)
  then show ?thesis
    unfolding f by (simp add: jl_def parse_star init_state_def init_lexer_def
        del: main_loop.simps)
qed

text \<open>
  Claim C8. Collecting the empty lexeme leaves the cell empty: a cell never assigned
  stays as it is, so the table is the same as before, and any cell has length 0
  afterwards. With pattern \<^verbatim>\<open>[*]\<close>, an array all of whose elements are \<^verbatim>\<open>""\<close> gives no
  output: the run ends without error and has written nothing.
\<close>

theorem empty_string_is_no_value:
  "(newrow t ! col = None \<longrightarrow> add_value t col [] = t)
   \<and> (col < length (newrow t) \<longrightarrow> buf_len (newrow (add_value t col []) ! col) = 0)
   \<and> jl (k + m + 4) fieldsep ''[*]'' (empty_strings k) = Inr []"
  using add_value_empty [of t col] add_value_empty_cell [of col t] jl_empty_strings [of k m fieldsep]
  by simp

theorem empty_string_is_no_value_witness:
  "newrow one_column ! 0 = None
   \<and> 0 < length (newrow one_column)
   \<and> add_value one_column 0 [] = one_column
   \<and> buf_len (newrow (add_value one_column 0 []) ! 0) = 0
   \<and> empty_strings 1 = [CHR ''['', QUOTE, QUOTE, CHR '','', QUOTE, QUOTE, CHR '']'']
   \<and> jl 5 [TAB] ''[*]'' [CHR ''['', QUOTE, QUOTE, CHR '','', QUOTE, QUOTE, CHR '']''] = Inr []"
proof -
  have a: "newrow one_column ! 0 = None" "0 < length (newrow one_column)"
    by (simp_all add: one_column_def)
  have e: "empty_strings 1 = [CHR ''['', QUOTE, QUOTE, CHR '','', QUOTE, QUOTE, CHR '']'']"
    by (simp add: empty_strings_def)
  from empty_string_is_no_value [of one_column 0 1 0 "[TAB]"] a e
  show ?thesis by (simp add: buf_len_def)
qed

section \<open>Skipping a document of the wrong shape\<close>

subsection \<open>Reading a token keeps the cached token\<close>

lemma read_char_peek: "read_char lx = (c, lx') \<Longrightarrow> peek lx' = peek lx"
  by (auto simp: read_char_def split: if_splits list.splits)

lemma skip_ws_peek: "skip_ws lx = (c, lx') \<Longrightarrow> peek lx' = peek lx"
proof (induction lx rule: skip_ws.induct)
  case (1 lx)
  obtain d lx1 where rc: "read_char lx = (d, lx1)" by (cases "read_char lx")
  show ?case
  proof (cases "is_ws d")
    case True
    with "1.prems" rc have "skip_ws lx1 = (c, lx')"
      by (subst (asm) skip_ws.simps) simp
    from "1.IH" [OF rc [symmetric] True this] read_char_peek [OF rc] show ?thesis by simp
  next
    case False
    with "1.prems" rc have "lx1 = lx'"
      by (subst (asm) skip_ws.simps) simp
    with read_char_peek [OF rc] show ?thesis by simp
  qed
qed

lemma read_literal_loop_peek:
  "read_literal_loop v ps lx = Inr lx' \<Longrightarrow> peek lx' = peek lx"
proof (induction ps arbitrary: lx)
  case Nil
  then show ?case by simp
next
  case (Cons p ps)
  obtain c lx1 where rc: "read_char lx = (c, lx1)" by (cases "read_char lx")
  with Cons.prems have "read_literal_loop v ps lx1 = Inr lx'"
    by (simp split: if_splits)
  from Cons.IH [OF this] read_char_peek [OF rc] show ?case by simp
qed

lemma read_literal_peek:
  "read_literal v off lx = Inr (b, lx') \<Longrightarrow> peek lx' = peek lx"
  by (auto simp: read_literal_def split: sum.splits dest: read_literal_loop_peek)

lemma read_hex_peek:
  "read_hex n b lx = Inr (b', lx') \<Longrightarrow> peek lx' = peek lx"
proof (induction n arbitrary: b lx)
  case 0
  then show ?case by simp
next
  case (Suc n)
  obtain c lx1 where rc: "read_char lx = (c, lx1)" by (cases "read_char lx")
  with Suc.prems have "read_hex n (b @ [c]) lx1 = Inr (b', lx')"
    by (simp split: if_splits)
  from Suc.IH [OF this] read_char_peek [OF rc] show ?case by simp
qed

lemma after_slash_peek:
  assumes "after_slash b lx = Inr (b', lx')"
  shows "peek lx' = peek lx"
proof -
  obtain c lx1 where rc: "read_char lx = (c, lx1)" by (cases "read_char lx")
  with assms have "lx' = lx1 \<or> read_hex 4 (b @ [CHR ''u'']) lx1 = Inr (b', lx')"
    by (auto simp: after_slash_def split: if_splits)
  with read_hex_peek read_char_peek [OF rc] show ?thesis by auto
qed

lemma after_quote_peek:
  "after_quote b lx = Inr (b', lx') \<Longrightarrow> peek lx' = peek lx"
proof (induction b lx rule: after_quote.induct)
  case (1 b lx)
  obtain c lx1 where rc: "read_char lx = (c, lx1)" by (cases "read_char lx")
  note p1 = read_char_peek [OF rc]
  from "1.prems" rc have nz: "c \<noteq> NUL"
    by (subst (asm) after_quote.simps) (auto split: if_splits)
  show ?case
  proof (cases "c = CHR 0x22")
    case True
    with "1.prems" rc nz have "lx' = lx1"
      by (subst (asm) after_quote.simps) simp
    with p1 show ?thesis by simp
  next
    case nq: False
    show ?thesis
    proof (cases "c = CHR 0x5C")
      case True
      with "1.prems" rc nz nq obtain b2 lx2 where
        sl: "after_slash (b @ [CHR 0x5C]) lx1 = Inr (b2, lx2)"
        and aq: "after_quote b2 lx2 = Inr (b', lx')"
        by (subst (asm) after_quote.simps) (auto split: sum.splits)
      from "1.IH"(1) [OF rc [symmetric] nz nq True sl refl aq] after_slash_peek [OF sl] p1
      show ?thesis by simp
    next
      case nb: False
      with "1.prems" rc nz nq have ctl: "\<not> (of_char c :: nat) \<le> 0x1f"
        and aq: "after_quote (b @ [c]) lx1 = Inr (b', lx')"
        by (subst (asm) after_quote.simps, auto split: if_splits)+
      from "1.IH"(2) [OF rc [symmetric] nz nq nb ctl aq] p1 show ?thesis by simp
    qed
  qed
qed

lemma append_digits_peek:
  "append_digits n b lx = (n', b', lx') \<Longrightarrow> peek lx' = peek lx"
proof (induction n b lx rule: append_digits.induct)
  case (1 n b lx)
  obtain c lx1 where rc: "read_char lx = (c, lx1)" by (cases "read_char lx")
  note p1 = read_char_peek [OF rc]
  show ?case
  proof (cases "c \<noteq> NUL \<and> is_digit c")
    case True
    with "1.prems" rc have "append_digits (int_wrap (n + 1)) (b @ [c]) lx1 = (n', b', lx')"
      by (subst (asm) append_digits.simps) simp
    from "1.IH" [OF rc [symmetric] _ _ this] True p1 show ?thesis by simp
  next
    case False
    with "1.prems" rc have "lx' = lx1 \<or> lx' = unread_char c lx1"
      by (subst (asm) append_digits.simps) (auto split: if_splits)
    with p1 show ?thesis by (auto simp: unread_char_def)
  qed
qed

lemma after_exp_peek:
  assumes "after_exp b lx = Inr (b', lx')"
  shows "peek lx' = peek lx"
proof -
  obtain c lx1 where rc: "read_char lx = (c, lx1)" by (cases "read_char lx")
  with assms have "\<exists>n. append_digits 0 (b @ [c]) lx1 = (n, b', lx')"
    by (auto simp: after_exp_def split: if_splits prod.splits)
  with append_digits_peek read_char_peek [OF rc] show ?thesis by fastforce
qed

lemma after_frac_peek:
  assumes "after_frac b lx = Inr (b', lx')"
  shows "peek lx' = peek lx"
proof -
  obtain n b1 lx1 where ad: "append_digits 0 b lx = (n, b1, lx1)"
    by (cases "append_digits 0 b lx") auto
  obtain c lx2 where rc: "read_char lx1 = (c, lx2)" by (cases "read_char lx1")
  from assms ad rc have "lx' = lx2 \<or> after_exp (b1 @ [c]) lx2 = Inr (b', lx')
      \<or> lx' = unread_char c lx2"
    by (auto simp: after_frac_def split: if_splits)
  with after_exp_peek append_digits_peek [OF ad] read_char_peek [OF rc] show ?thesis
    by (auto simp: unread_char_def)
qed

lemma after_1to9_peek:
  "after_1to9 b lx = Inr (b', lx') \<Longrightarrow> peek lx' = peek lx"
proof (induction b lx rule: after_1to9.induct)
  case (1 b lx)
  obtain c lx1 where rc: "read_char lx = (c, lx1)" by (cases "read_char lx")
  note p1 = read_char_peek [OF rc]
  show ?case
  proof (cases "c \<noteq> NUL \<and> c \<noteq> CHR ''.'' \<and> is_digit c")
    case True
    with "1.prems" rc have "after_1to9 (b @ [c]) lx1 = Inr (b', lx')"
      by (subst (asm) after_1to9.simps) simp
    from "1.IH" [OF rc [symmetric] _ _ _ this] True p1 show ?thesis by simp
  next
    case False
    with "1.prems" rc have "lx' = lx1 \<or> after_frac (b @ [c]) lx1 = Inr (b', lx')
        \<or> after_exp (b @ [c]) lx1 = Inr (b', lx') \<or> lx' = unread_char c lx1"
      by (subst (asm) after_1to9.simps) (auto split: if_splits)
    with after_frac_peek after_exp_peek p1 show ?thesis
      by (auto simp: unread_char_def)
  qed
qed

lemma after_0_peek:
  assumes "after_0 b lx = Inr (b', lx')"
  shows "peek lx' = peek lx"
proof -
  obtain c lx1 where rc: "read_char lx = (c, lx1)" by (cases "read_char lx")
  with assms have "lx' = lx1 \<or> after_frac (b @ [CHR ''.'']) lx1 = Inr (b', lx')
      \<or> after_exp (b @ [c]) lx1 = Inr (b', lx') \<or> lx' = unread_char c lx1"
    by (auto simp: after_0_def split: if_splits)
  with after_frac_peek after_exp_peek read_char_peek [OF rc] show ?thesis
    by (auto simp: unread_char_def)
qed

lemma after_minus_peek:
  assumes "after_minus b lx = Inr (b', lx')"
  shows "peek lx' = peek lx"
proof -
  obtain c lx1 where rc: "read_char lx = (c, lx1)" by (cases "read_char lx")
  with assms have "after_0 (b @ [c]) lx1 = Inr (b', lx')
      \<or> after_1to9 (b @ [c]) lx1 = Inr (b', lx')"
    by (auto simp: after_minus_def split: if_splits)
  with after_0_peek after_1to9_peek read_char_peek [OF rc] show ?thesis
    by auto
qed

lemma read_token_peek:
  assumes "read_token lx = Inr (t, lx')"
  shows "peek lx' = peek lx"
proof -
  obtain c lx1 where sk: "skip_ws lx = (c, lx1)" by (cases "skip_ws lx")
  from assms sk have "lx' = lx1
      \<or> (\<exists>v b. read_literal v 1 lx1 = Inr (b, lx'))
      \<or> (\<exists>b. after_quote [] lx1 = Inr (b, lx'))
      \<or> (\<exists>b. after_minus [c] lx1 = Inr (b, lx'))
      \<or> (\<exists>b. after_0 [c] lx1 = Inr (b, lx'))
      \<or> (\<exists>b. after_1to9 [c] lx1 = Inr (b, lx'))"
    by (auto simp: read_token_def split: if_splits dest!: mk_token_Inr)
  with read_literal_peek after_quote_peek after_minus_peek after_0_peek after_1to9_peek
    skip_ws_peek [OF sk]
  show ?thesis by auto
qed

lemma next_token_peek_None:
  "next_token lx = Inr (t, lx') \<Longrightarrow> peek lx' = None"
  by (auto simp: next_token_def split: option.splits dest: read_token_peek)

lemma peek_then_next:
  assumes "next_token lx = Inr (t, lx')"
  shows "\<exists>lx1. peek_token lx = Inr (t, lx1) \<and> next_token lx1 = Inr (t, lx')"
proof (cases "peek lx")
  case None
  from next_token_peek_None [OF assms] have "lx'\<lparr>peek := None\<rparr> = lx'" by simp
  with None assms show ?thesis
    by (simp add: peek_token_def next_token_def)
next
  case (Some t0)
  with assms show ?thesis
    by (auto simp: peek_token_def next_token_def)
qed

subsection \<open>Token sequences\<close>

lemma lex_tokens_append:
  "lex_tokens lx (a @ b) = (case lex_tokens lx a of None \<Rightarrow> None | Some lx1 \<Rightarrow> lex_tokens lx1 b)"
  by (induction a arbitrary: lx) (auto split: sum.splits)

lemma lex_tokens_Cons:
  "lex_tokens lx (t # ts) = Some lx' \<longleftrightarrow>
   (\<exists>lx1. next_token lx = Inr (t, lx1) \<and> lex_tokens lx1 ts = Some lx')"
  by (auto split: sum.splits if_splits)

declare lex_tokens.simps(2) [simp del]

lemma lex_tokens_appendD:
  "lex_tokens lx (a @ b) = Some lx' \<Longrightarrow>
   \<exists>lx1. lex_tokens lx a = Some lx1 \<and> lex_tokens lx1 b = Some lx'"
  by (auto simp: lex_tokens_append split: option.splits)

lemma tokens_first:
  "\<exists>t ts. tokens v = t # ts \<and> ttype t \<noteq> T_ENDARRAY \<and> ttype t \<noteq> T_ENDOBJECT"
  by (cases v) (auto simp: punct_def)

lemma skip_value_peeked:
  assumes "peek_token lx = Inr (t, lx1)"
  shows "skip_value n lx1 = skip_value n lx"
  using assms peek_token_again [OF assms] by (cases n) simp_all

lemma skip_array_loop_peeked:
  assumes "peek_token lx = Inr (t, lx1)"
  shows "skip_array_loop n lx1 = skip_array_loop n lx"
  using skip_value_peeked [OF assms] by (cases n) simp_all

lemma next_token_peeked_eq:
  assumes "peek_token lx = Inr (t, lx1)"
  shows "next_token lx1 = next_token lx"
proof -
  from assms obtain lx' where "next_token lx = Inr (t, lx')"
    by (auto simp: peek_token_def next_token_def split: option.splits sum.splits)
  with peek_then_next [OF this] assms show ?thesis by auto
qed

lemma accept_peeked:
  assumes "peek_token lx = Inr (t, lx1)"
  shows "accept ty lx1 = accept ty lx"
  by (simp add: accept_def next_token_peeked_eq [OF assms])

lemma skip_object_loop_peeked:
  assumes "peek_token lx = Inr (t, lx1)"
  shows "skip_object_loop n lx1 = skip_object_loop n lx"
  using accept_peeked [OF assms] by (cases n) simp_all

lemma skip_array_peeked:
  assumes "peek_token lx = Inr (t, lx1)"
  shows "skip_array n lx1 = skip_array n lx"
  using accept_peeked [OF assms] by (cases n) simp_all

lemma skip_object_peeked:
  assumes "peek_token lx = Inr (t, lx1)"
  shows "skip_object n lx1 = skip_object n lx"
  using accept_peeked [OF assms] by (cases n) simp_all

subsection \<open>Skipping a value\<close>

lemma skipsI:
  assumes "\<And>m. n \<le> m \<Longrightarrow> f m lx = Inr lx'"
  shows "skips f lx lx'"
  using assms by (auto simp: skips_def)

lemma skipsD: "skips f lx lx' \<Longrightarrow> \<exists>n. \<forall>m \<ge> n. f m lx = Inr lx'"
  by (simp add: skips_def)

lemma skip_value_step:
  assumes "next_token lx = Inr (t, lx2)"
  shows "skip_value (Suc k) lx =
     (if ttype t = T_BEGINARRAY then skip_array k lx
      else if ttype t = T_BEGINOBJECT then skip_object k lx
      else if \<not> is_literal (ttype t) then Inl UnexpectedTokenType
      else Inr lx2)"
proof -
  from peek_then_next [OF assms] obtain lx1 where
    pk: "peek_token lx = Inr (t, lx1)" and nx: "next_token lx1 = Inr (t, lx2)"
    by blast
  show ?thesis
    by (simp add: pk nx skip_array_peeked [OF pk] skip_object_peeked [OF pk])
qed

lemma skip_array_step:
  assumes "next_token lx = Inr (t, lxa)" "ttype t = T_BEGINARRAY"
    "next_token lxa = Inr (t2, lxb)"
  shows "skip_array (Suc k) lx =
     (if ttype t2 = T_ENDARRAY then Inr lxb else skip_array_loop k lxa)"
proof -
  from peek_then_next [OF assms(3)] obtain lx1 where
    pk: "peek_token lxa = Inr (t2, lx1)" and nx: "next_token lx1 = Inr (t2, lxb)"
    by blast
  show ?thesis
    by (simp add: accept_def assms(1,2) pk nx skip_array_loop_peeked [OF pk])
qed

lemma skip_object_step:
  assumes "next_token lx = Inr (t, lxa)" "ttype t = T_BEGINOBJECT"
    "next_token lxa = Inr (t2, lxb)"
  shows "skip_object (Suc k) lx =
     (if ttype t2 = T_ENDOBJECT then Inr lxb else skip_object_loop k lxa)"
proof -
  from peek_then_next [OF assms(3)] obtain lx1 where
    pk: "peek_token lxa = Inr (t2, lx1)" and nx: "next_token lx1 = Inr (t2, lxb)"
    by blast
  show ?thesis
    by (simp add: accept_def assms(1,2) pk nx skip_object_loop_peeked [OF pk])
qed

lemma skip_array_loop_step:
  assumes "skip_value k lx = Inr lx1" "next_token lx1 = Inr (t, lx2)"
  shows "skip_array_loop (Suc k) lx =
     (if ttype t = T_MEMBERSEP then skip_array_loop k lx2
      else if ttype t \<noteq> T_ENDARRAY then Inl ExpectedArrayEnd
      else Inr lx2)"
  by (simp add: assms)

lemma skip_object_loop_step:
  assumes "next_token lx = Inr (tk, lx1)" "ttype tk = T_STRING"
    "next_token lx1 = Inr (tc, lx2)" "ttype tc = T_PAIRSEP"
    "skip_value k lx2 = Inr lx3" "next_token lx3 = Inr (t, lx4)"
  shows "skip_object_loop (Suc k) lx =
     (if ttype t = T_MEMBERSEP then skip_object_loop k lx4
      else if ttype t \<noteq> T_ENDOBJECT then Inl ExpectedObjectEnd
      else Inr lx4)"
  by (simp add: accept_def assms)

lemma sep_by_Cons: "ys \<noteq> [] \<Longrightarrow> sep_by s (x # ys) = x @ s # sep_by s ys"
  by (cases ys) simp_all

lemma skip_array_elements:
  assumes "vs \<noteq> []" "\<forall>v \<in> set vs. skippable v"
    "lex_tokens lx (sep_by (punct T_MEMBERSEP '','') (map tokens vs) @ [punct T_ENDARRAY '']''])
     = Some lx'"
  shows "skips skip_array_loop lx lx'"
  using assms
proof (induction vs arbitrary: lx rule: list_nonempty_induct)
  case (single v)
  from single.prems(2) obtain lx1 where
    v: "lex_tokens lx (tokens v) = Some lx1"
    and e: "next_token lx1 = Inr (punct T_ENDARRAY '']'', lx')"
    by (auto dest!: lex_tokens_appendD simp: lex_tokens_Cons)
  from single.prems(1) v have "skips skip_value lx lx1"
    by (simp add: skippable_def)
  then obtain n where n: "\<forall>m \<ge> n. skip_value m lx = Inr lx1"
    by (blast dest: skipsD)
  show ?case
  proof (rule skipsI [of "Suc n"])
    fix m assume "Suc n \<le> m"
    then obtain k where m: "m = Suc k" and k: "n \<le> k" by (cases m) auto
    show "skip_array_loop m lx = Inr lx'"
      unfolding m by (simp only: skip_array_loop_step [OF n [rule_format, OF k] e]) (simp add: punct_def)
  qed
next
  case (cons v vs)
  from cons.hyps have ne: "map tokens vs \<noteq> []" by simp
  have "sep_by (punct T_MEMBERSEP '','') (map tokens (v # vs)) @ [punct T_ENDARRAY '']'']
        = tokens v @ (punct T_MEMBERSEP '','' #
            (sep_by (punct T_MEMBERSEP '','') (map tokens vs) @ [punct T_ENDARRAY '']'']))"
    by (simp add: sep_by_Cons [OF ne])
  with cons.prems(2) obtain lx1 where
    v: "lex_tokens lx (tokens v) = Some lx1"
    and "lex_tokens lx1 (punct T_MEMBERSEP '','' #
            (sep_by (punct T_MEMBERSEP '','') (map tokens vs) @ [punct T_ENDARRAY '']'']))
         = Some lx'"
    using lex_tokens_appendD by metis
  then obtain lx2 where
    c: "next_token lx1 = Inr (punct T_MEMBERSEP '','', lx2)"
    and r: "lex_tokens lx2 (sep_by (punct T_MEMBERSEP '','') (map tokens vs)
              @ [punct T_ENDARRAY '']'']) = Some lx'"
    by (auto simp: lex_tokens_Cons)
  from cons.prems(1) v have "skips skip_value lx lx1"
    by (simp add: skippable_def)
  then obtain n1 where n1: "\<forall>m \<ge> n1. skip_value m lx = Inr lx1"
    by (blast dest: skipsD)
  from cons.prems(1) have "\<forall>v \<in> set vs. skippable v" by simp
  from cons.IH [OF this r] obtain n2 where
    n2: "\<forall>m \<ge> n2. skip_array_loop m lx2 = Inr lx'"
    by (blast dest: skipsD)
  show ?case
  proof (rule skipsI [of "Suc (max n1 n2)"])
    fix m assume "Suc (max n1 n2) \<le> m"
    then obtain k where m: "m = Suc k" and k: "n1 \<le> k" "n2 \<le> k" by (cases m) auto
    show "skip_array_loop m lx = Inr lx'"
      unfolding m
      by (simp only: skip_array_loop_step [OF n1 [rule_format, OF k(1)] c]) (simp add: punct_def n2 [rule_format, OF k(2)])
  qed
qed

lemma skip_object_members:
  assumes "ms \<noteq> []" "\<forall>m \<in> set ms. skippable (snd m)"
    "lex_tokens lx (sep_by (punct T_MEMBERSEP '','') (map member_tokens ms)
       @ [punct T_ENDOBJECT ''}'']) = Some lx'"
  shows "skips skip_object_loop lx lx'"
  using assms
proof (induction ms arbitrary: lx rule: list_nonempty_induct)
  case (single mb)
  have "sep_by (punct T_MEMBERSEP '','') (map member_tokens [mb]) @ [punct T_ENDOBJECT ''}'']
        = punct T_STRING (fst mb) # punct T_PAIRSEP '':'' #
            (tokens (snd mb) @ [punct T_ENDOBJECT ''}''])"
    by (simp add: member_tokens_def)
  with single.prems(2) obtain la lb where
    k: "next_token lx = Inr (punct T_STRING (fst mb), la)"
    and p: "next_token la = Inr (punct T_PAIRSEP '':'', lb)"
    and "lex_tokens lb (tokens (snd mb) @ [punct T_ENDOBJECT ''}'']) = Some lx'"
    by (auto simp: lex_tokens_Cons)
  then obtain lx1 where
    v: "lex_tokens lb (tokens (snd mb)) = Some lx1"
    and e: "next_token lx1 = Inr (punct T_ENDOBJECT ''}'', lx')"
    by (auto dest!: lex_tokens_appendD simp: lex_tokens_Cons)
  from single.prems(1) v have "skips skip_value lb lx1"
    by (simp add: skippable_def)
  then obtain n where n: "\<forall>m \<ge> n. skip_value m lb = Inr lx1"
    by (blast dest: skipsD)
  have ty: "ttype (punct T_STRING (fst mb)) = T_STRING"
    "ttype (punct T_PAIRSEP '':'') = T_PAIRSEP"
    by (simp_all add: punct_def)
  show ?case
  proof (rule skipsI [of "Suc n"])
    fix m assume "Suc n \<le> m"
    then obtain j where m: "m = Suc j" and j: "n \<le> j" by (cases m) auto
    show "skip_object_loop m lx = Inr lx'"
      unfolding m
      by (simp only: skip_object_loop_step [OF k ty(1) p ty(2) n [rule_format, OF j] e])
         (simp add: punct_def)
  qed
next
  case (cons mb ms)
  from cons.hyps have ne: "map member_tokens ms \<noteq> []" by simp
  have "sep_by (punct T_MEMBERSEP '','') (map member_tokens (mb # ms))
           @ [punct T_ENDOBJECT ''}'']
        = punct T_STRING (fst mb) # punct T_PAIRSEP '':'' #
            (tokens (snd mb) @ (punct T_MEMBERSEP '','' #
              (sep_by (punct T_MEMBERSEP '','') (map member_tokens ms)
                 @ [punct T_ENDOBJECT ''}''])))"
    by (simp add: sep_by_Cons [OF ne]) (simp add: member_tokens_def)
  with cons.prems(2) obtain la lb where
    k: "next_token lx = Inr (punct T_STRING (fst mb), la)"
    and p: "next_token la = Inr (punct T_PAIRSEP '':'', lb)"
    and "lex_tokens lb (tokens (snd mb) @ (punct T_MEMBERSEP '','' #
              (sep_by (punct T_MEMBERSEP '','') (map member_tokens ms)
                 @ [punct T_ENDOBJECT ''}'']))) = Some lx'"
    by (auto simp: lex_tokens_Cons)
  then obtain lx1 where
    v: "lex_tokens lb (tokens (snd mb)) = Some lx1"
    and "lex_tokens lx1 (punct T_MEMBERSEP '','' #
              (sep_by (punct T_MEMBERSEP '','') (map member_tokens ms)
                 @ [punct T_ENDOBJECT ''}''])) = Some lx'"
    using lex_tokens_appendD by metis
  then obtain lx2 where
    c: "next_token lx1 = Inr (punct T_MEMBERSEP '','', lx2)"
    and r: "lex_tokens lx2 (sep_by (punct T_MEMBERSEP '','') (map member_tokens ms)
              @ [punct T_ENDOBJECT ''}'']) = Some lx'"
    by (auto simp: lex_tokens_Cons)
  from cons.prems(1) v have "skips skip_value lb lx1"
    by (simp add: skippable_def)
  then obtain n1 where n1: "\<forall>m \<ge> n1. skip_value m lb = Inr lx1"
    by (blast dest: skipsD)
  from cons.prems(1) have "\<forall>m \<in> set ms. skippable (snd m)" by simp
  from cons.IH [OF this r] obtain n2 where
    n2: "\<forall>m \<ge> n2. skip_object_loop m lx2 = Inr lx'"
    by (blast dest: skipsD)
  have ty: "ttype (punct T_STRING (fst mb)) = T_STRING"
    "ttype (punct T_PAIRSEP '':'') = T_PAIRSEP"
    by (simp_all add: punct_def)
  show ?case
  proof (rule skipsI [of "Suc (max n1 n2)"])
    fix m assume "Suc (max n1 n2) \<le> m"
    then obtain j where m: "m = Suc j" and j: "n1 \<le> j" "n2 \<le> j" by (cases m) auto
    show "skip_object_loop m lx = Inr lx'"
      unfolding m
      by (simp only: skip_object_loop_step [OF k ty(1) p ty(2) n1 [rule_format, OF j(1)] c])
         (simp add: punct_def n2 [rule_format, OF j(2)])
  qed
qed

lemma tokens_JObject:
  "tokens (JObject ms) =
     punct T_BEGINOBJECT ''{'' # sep_by (punct T_MEMBERSEP '','') (map member_tokens ms)
     @ [punct T_ENDOBJECT ''}'']"
proof -
  have "member_tokens = (\<lambda>m. punct T_STRING (fst m) # punct T_PAIRSEP '':'' # tokens (snd m))"
    by (rule ext) (simp add: member_tokens_def)
  then show ?thesis by simp
qed

lemma sep_by_first:
  assumes "xs \<noteq> []" "hd xs \<noteq> []"
  shows "\<exists>ts. sep_by s xs @ r = hd (hd xs) # ts"
proof -
  from assms obtain x xs' where xs: "xs = x # xs'" by (cases xs) auto
  with assms(2) obtain t ts where x: "x = t # ts" by (cases x) auto
  show ?thesis by (cases xs') (simp_all add: xs x)
qed

lemma literal_skippable:
  assumes "tokens v = [t]" "is_literal (ttype t)"
  shows "skippable v"
  unfolding skippable_def
proof (intro allI impI)
  fix lx lx'
  assume "lex_tokens lx (tokens v) = Some lx'"
  with assms(1) have nx: "next_token lx = Inr (t, lx')"
    by (simp add: lex_tokens_Cons)
  from assms(2) have ty: "ttype t \<noteq> T_BEGINARRAY" "ttype t \<noteq> T_BEGINOBJECT"
    by (auto simp: is_literal_def)
  show "skips skip_value lx lx'"
  proof (rule skipsI [of 1])
    fix m :: nat assume "1 \<le> m"
    then obtain k where m: "m = Suc k" by (cases m) auto
    show "skip_value m lx = Inr lx'"
      unfolding m by (simp only: skip_value_step [OF nx]) (simp add: ty assms(2))
  qed
qed

lemma array_skippable:
  assumes "\<forall>v \<in> set vs. skippable v"
  shows "skippable (JArray vs)"
  unfolding skippable_def
proof (intro allI impI)
  fix lx lx'
  let ?rest = "sep_by (punct T_MEMBERSEP '','') (map tokens vs) @ [punct T_ENDARRAY '']'']"
  assume "lex_tokens lx (tokens (JArray vs)) = Some lx'"
  then obtain lxa where
    b: "next_token lx = Inr (punct T_BEGINARRAY ''['', lxa)"
    and r: "lex_tokens lxa ?rest = Some lx'"
    by (auto simp: lex_tokens_Cons)
  have tb: "ttype (punct T_BEGINARRAY ''['') = T_BEGINARRAY" by (simp add: punct_def)
  show "skips skip_value lx lx'"
  proof (cases "vs = []")
    case True
    with r have e: "next_token lxa = Inr (punct T_ENDARRAY '']'', lx')"
      by (simp add: lex_tokens_Cons)
    show ?thesis
    proof (rule skipsI [of 2])
      fix m :: nat assume "2 \<le> m"
      then obtain k where m: "m = Suc (Suc k)"
        by (cases m) (auto, metis Suc_le_D Suc_le_mono)
      show "skip_value m lx = Inr lx'"
        unfolding m
        by (simp only: skip_value_step [OF b] tb if_True skip_array_step [OF b tb e])
           (simp add: punct_def)
    qed
  next
    case False
    from skip_array_elements [OF False assms r] obtain n where
      n: "\<forall>m \<ge> n. skip_array_loop m lxa = Inr lx'"
      by (blast dest: skipsD)
    from False obtain v where v: "hd (map tokens vs) = tokens v"
      by (cases vs) auto
    from tokens_first [of v] obtain t ts where
      t: "tokens v = t # ts" "ttype t \<noteq> T_ENDARRAY" by blast
    from False v t have "map tokens vs \<noteq> []" "hd (map tokens vs) \<noteq> []" by simp_all
    from sep_by_first [OF this, of "punct T_MEMBERSEP '',''" "[punct T_ENDARRAY '']'']"] v t
    obtain ts' where "?rest = t # ts'" by auto
    with r obtain lxb where f: "next_token lxa = Inr (t, lxb)"
      by (auto simp: lex_tokens_Cons)
    show ?thesis
    proof (rule skipsI [of "Suc (Suc n)"])
      fix m :: nat assume "Suc (Suc n) \<le> m"
      then obtain k where m: "m = Suc (Suc k)" and k: "n \<le> k"
        by (cases m) (auto, metis Suc_le_D Suc_le_mono)
      show "skip_value m lx = Inr lx'"
        unfolding m
        by (simp only: skip_value_step [OF b] tb if_True skip_array_step [OF b tb f])
           (simp add: t n [rule_format, OF k])
    qed
  qed
qed

lemma object_skippable:
  assumes "\<forall>m \<in> set ms. skippable (snd m)"
  shows "skippable (JObject ms)"
  unfolding skippable_def
proof (intro allI impI)
  fix lx lx'
  let ?rest = "sep_by (punct T_MEMBERSEP '','') (map member_tokens ms) @ [punct T_ENDOBJECT ''}'']"
  assume "lex_tokens lx (tokens (JObject ms)) = Some lx'"
  then obtain lxa where
    b: "next_token lx = Inr (punct T_BEGINOBJECT ''{'', lxa)"
    and r: "lex_tokens lxa ?rest = Some lx'"
    unfolding tokens_JObject by (auto simp: lex_tokens_Cons)
  have tb: "ttype (punct T_BEGINOBJECT ''{'') = T_BEGINOBJECT"
    "ttype (punct T_BEGINOBJECT ''{'') \<noteq> T_BEGINARRAY"
    by (simp_all add: punct_def)
  show "skips skip_value lx lx'"
  proof (cases "ms = []")
    case True
    with r have e: "next_token lxa = Inr (punct T_ENDOBJECT ''}'', lx')"
      by (simp add: lex_tokens_Cons)
    show ?thesis
    proof (rule skipsI [of 2])
      fix m :: nat assume "2 \<le> m"
      then obtain k where m: "m = Suc (Suc k)"
        by (cases m) (auto, metis Suc_le_D Suc_le_mono)
      show "skip_value m lx = Inr lx'"
        unfolding m
        by (simp only: skip_value_step [OF b] tb if_True if_False
            skip_object_step [OF b tb(1) e])
           (simp add: punct_def)
    qed
  next
    case False
    from skip_object_members [OF False assms r] obtain n where
      n: "\<forall>m \<ge> n. skip_object_loop m lxa = Inr lx'"
      by (blast dest: skipsD)
    from False obtain mb where "hd (map member_tokens ms) = member_tokens mb"
      by (cases ms) auto
    then have h: "hd (map member_tokens ms) \<noteq> []"
      "hd (hd (map member_tokens ms)) = punct T_STRING (fst mb)"
      by (simp_all add: member_tokens_def)
    from False have "map member_tokens ms \<noteq> []" by simp
    from sep_by_first [OF this h(1), of "punct T_MEMBERSEP '',''" "[punct T_ENDOBJECT ''}'']"] h(2)
    obtain ts' where "?rest = punct T_STRING (fst mb) # ts'" by auto
    with r obtain lxb where f: "next_token lxa = Inr (punct T_STRING (fst mb), lxb)"
      by (auto simp: lex_tokens_Cons)
    show ?thesis
    proof (rule skipsI [of "Suc (Suc n)"])
      fix m :: nat assume "Suc (Suc n) \<le> m"
      then obtain k where m: "m = Suc (Suc k)" and k: "n \<le> k"
        by (cases m) (auto, metis Suc_le_D Suc_le_mono)
      show "skip_value m lx = Inr lx'"
        unfolding m
        by (simp only: skip_value_step [OF b] tb if_True if_False
            skip_object_step [OF b tb(1) f])
           (simp add: punct_def n [rule_format, OF k])
    qed
  qed
qed

lemma all_skippable: "skippable v"
proof (induction v)
  case JNull
  show ?case by (rule literal_skippable [of _ "punct T_NULL ''null''"])
      (simp_all add: punct_def is_literal_def)
next
  case (JBool b)
  show ?case by (rule literal_skippable [of _ "punct T_BOOL (if b then ''true'' else ''false'')"])
      (simp_all add: punct_def is_literal_def)
next
  case (JNumber s)
  show ?case by (rule literal_skippable [of _ "punct T_NUMBER s"])
      (simp_all add: punct_def is_literal_def)
next
  case (JString s)
  show ?case by (rule literal_skippable [of _ "punct T_STRING s"])
      (simp_all add: punct_def is_literal_def)
next
  case (JArray vs)
  then show ?case by (intro array_skippable) simp
next
  case (JObject ms)
  have "\<forall>m \<in> set ms. skippable (snd m)"
  proof
    fix m assume "m \<in> set ms"
    moreover have "snd m \<in> Basic_BNFs.snds m" by (cases m) simp
    ultimately show "skippable (snd m)" by (rule JObject.IH)
  qed
  then show ?case by (rule object_skippable)
qed

lemma tokens_head_type:
  "\<exists>t ts. tokens v = t # ts
     \<and> (ttype t = T_BEGINARRAY \<longleftrightarrow> is_array v)
     \<and> (ttype t = T_BEGINOBJECT \<longleftrightarrow> is_object v)"
  by (cases v) (auto simp: punct_def)

lemma run_op_mismatch:
  assumes "lex_tokens (lexer st) (tokens v) = Some lx'" "shape_mismatch op v"
  shows "\<exists>n. \<forall>m \<ge> n. run_op m fieldsep op st = Inr (st\<lparr>lexer := lx'\<rparr>)"
proof -
  from all_skippable [of v] assms(1) obtain n where
    n: "\<forall>m \<ge> n. skip_value m (lexer st) = Inr lx'"
    unfolding skippable_def by (blast dest: skipsD)
  from tokens_head_type [of v] obtain t ts where
    t: "tokens v = t # ts" "ttype t = T_BEGINARRAY \<longleftrightarrow> is_array v"
      "ttype t = T_BEGINOBJECT \<longleftrightarrow> is_object v"
    by blast
  with assms(1) obtain lx2 where "next_token (lexer st) = Inr (t, lx2)"
    by (auto simp: lex_tokens_Cons)
  from peek_then_next [OF this] obtain lx1 where
    pk: "peek_token (lexer st) = Inr (t, lx1)" by blast
  have "run_op m fieldsep op st = Inr (st\<lparr>lexer := lx'\<rparr>)" if "Suc n \<le> m" for m
  proof -
    from that obtain k where m: "m = Suc k" and k: "n \<le> k" by (cases m) auto
    have sk: "skip_value_st k (st\<lparr>lexer := lx1\<rparr>) = Inr (st\<lparr>lexer := lx'\<rparr>)"
      by (simp add: skip_value_st_def skip_value_peeked [OF pk] n [rule_format, OF k])
    show ?thesis
    proof (cases op)
      case (ArrayOp tab nxt isroot)
      with assms(2) t have "ttype t \<noteq> T_BEGINARRAY" by simp
      then show ?thesis
        unfolding m ArrayOp by (simp add: pk sk)
    next
      case (ObjectOp tab props isroot)
      with assms(2) t have "ttype t \<noteq> T_BEGINOBJECT" by simp
      then show ?thesis
        unfolding m ObjectOp by (simp add: pk sk)
    next
      case (CollectOp ti col)
      with assms(2) show ?thesis by simp
    qed
  qed
  then show ?thesis by blast
qed

text \<open>
  Claim C4. When the tokens of one document value come next and the value is not of the
  kind the top operator expects (an Array operator and no array, an Object operator and
  no object), running the operator is no error: with enough fuel it returns the state in
  which the lexer has consumed exactly the tokens of this value, and the tables and the
  output are what they were.
\<close>

theorem shape_mismatch_skipped:
  assumes "lex_tokens (lexer st) (tokens v) = Some lx'" "shape_mismatch op v"
  shows "\<exists>n. \<forall>m \<ge> n. run_op m fieldsep op st = Inr (st\<lparr>lexer := lx'\<rparr>)"
  using assms by (rule run_op_mismatch)

theorem shape_mismatch_skipped_witness:
  "lex_tokens (lexer (init_state [one_column] mismatch_input)) (tokens mismatch_document)
     = Some (at_input '' 7'')
   \<and> shape_mismatch (ArrayOp (Some 0) (CollectOp 0 0) True) mismatch_document
   \<and> (\<exists>n. run_op n [TAB] (ArrayOp (Some 0) (CollectOp 0 0) True)
             (init_state [one_column] mismatch_input)
           = Inr ((init_state [one_column] mismatch_input)\<lparr>lexer := at_input '' 7''\<rparr>))"
proof -
  have l: "lex_tokens (lexer (init_state [one_column] mismatch_input)) (tokens mismatch_document)
     = Some (at_input '' 7'')"
    by (simp add: mismatch_input_def mismatch_document_def init_state_def punct_def
        lex_tokens.simps rec_simps lex_defs)
  have s: "shape_mismatch (ArrayOp (Some 0) (CollectOp 0 0) True) mismatch_document"
    by (simp add: mismatch_document_def)
  from shape_mismatch_skipped [OF l s, of "[TAB]"] l s show ?thesis
    by blast
qed

lemma mismatch_example:
  "run_op 9 [TAB] (ArrayOp (Some 0) (CollectOp 0 0) True) (init_state [one_column] mismatch_input)
   = Inr ((init_state [one_column] mismatch_input)\<lparr>lexer := at_input '' 7''\<rparr>)"
  by (simp add: mismatch_input_def jl_eval)

section \<open>Strings from the input to the output\<close>

lemma read_hex_body:
  "length hs = n \<Longrightarrow> list_all isxdigit hs \<Longrightarrow>
   read_hex n b (at_input (hs @ rest)) = Inr (b @ hs, at_input rest)"
proof (induction hs arbitrary: n b)
  case Nil
  then show ?case by simp
next
  case (Cons h hs)
  then obtain m where n: "n = Suc m" "length hs = m" by (cases n) auto
  from Cons.prems have h: "isxdigit h" "list_all isxdigit hs" by simp_all
  from h(1) have "h \<noteq> NUL" by (rule isxdigit_not_NUL)
  with h(1) Cons.IH [OF n(2) h(2), of "b @ [h]"] show ?case
    unfolding n by (simp add: read_char_def)
qed

lemma special_chars:
  "CHR 0x22 \<noteq> NUL" "CHR 0x5C \<noteq> NUL" "CHR ''u'' \<noteq> NUL" "\<not> is_ws (CHR 0x22)"
  by (simp_all add: NUL_def is_ws_def)

lemma after_quote_body:
  "string_body s \<Longrightarrow>
   after_quote b (at_input (s @ QUOTE # rest)) = Inr (b @ s, at_input rest)"
proof (induction s arbitrary: b rule: string_body.induct)
  case 1
  show ?case
    by (subst after_quote.simps) (simp add: read_char_def QUOTE_def special_chars)
next
  case (2 c cs)
  show ?case
  proof (cases "c = BACKSLASH")
    case True
    with "2.prems" obtain e r where cs: "cs = e # r" by (cases cs) auto
    show ?thesis
    proof (cases "is_valid_escape e")
      case v: True
      with "2.prems" True cs have sb: "string_body r" by simp
      have "after_slash (b @ [BACKSLASH]) (at_input (e # r @ QUOTE # rest))
            = Inr (b @ [BACKSLASH, e], at_input (r @ QUOTE # rest))"
        using v is_valid_escape_not_NUL [OF v] by (simp add: after_slash_def read_char_def)
      with "2.IH"(1) [OF True cs v sb, of "b @ [BACKSLASH, e]"] show ?thesis
        unfolding True cs
        by (subst after_quote.simps)
           (simp add: read_char_def QUOTE_def BACKSLASH_def special_chars)
    next
      case nv: False
      with "2.prems" True cs have u: "e = CHR ''u''" and l: "4 \<le> length r"
        and hx: "list_all isxdigit (take 4 r)" and sb: "string_body (drop 4 r)"
        by simp_all
      define hs where "hs = take 4 r"
      define tl where "tl = drop 4 r"
      have r: "r = hs @ tl" by (simp add: hs_def tl_def)
      from l have l4: "length hs = 4" by (simp add: hs_def)
      from hx have hx': "list_all isxdigit hs" by (simp add: hs_def)
      from sb have sb': "string_body tl" by (simp add: tl_def)
      have "read_hex 4 (b @ [BACKSLASH, CHR ''u'']) (at_input (hs @ tl @ QUOTE # rest))
            = Inr (b @ [BACKSLASH, CHR ''u''] @ hs, at_input (tl @ QUOTE # rest))"
        using read_hex_body [OF l4 hx', of "b @ [BACKSLASH, CHR ''u'']" "tl @ QUOTE # rest"]
        by simp
      then have "after_slash (b @ [BACKSLASH]) (at_input (e # r @ QUOTE # rest))
            = Inr (b @ [BACKSLASH, CHR ''u''] @ hs, at_input (tl @ QUOTE # rest))"
        using nv u unfolding r by (simp add: after_slash_def read_char_def special_chars)
      moreover from "2.IH"(2) [OF True cs nv, of "b @ [BACKSLASH, CHR ''u''] @ hs"] u l hx sb
      have "after_quote (b @ [BACKSLASH, CHR ''u''] @ hs) (at_input (tl @ QUOTE # rest))
            = Inr (b @ [BACKSLASH, CHR ''u''] @ hs @ tl, at_input rest)"
        by (simp add: hs_def tl_def)
      ultimately show ?thesis
        unfolding True cs u
        by (subst after_quote.simps)
           (simp add: read_char_def QUOTE_def BACKSLASH_def special_chars r)
    qed
  next
    case False
    with "2.prems" have c: "c \<noteq> QUOTE" "c \<noteq> NUL" "\<not> (of_char c :: nat) \<le> 0x1f"
      and sb: "string_body cs" by simp_all
    from "2.IH"(3) [OF False, of "b @ [c]"] c sb False show ?thesis
      by (subst after_quote.simps)
         (simp add: read_char_def QUOTE_def BACKSLASH_def)
  qed
qed

lemma skip_ws_blanks:
  assumes "list_all is_ws ws" "\<not> is_ws c" "c \<noteq> NUL"
  shows "skip_ws (at_input (ws @ c # r)) = (c, at_input r)"
  using assms
proof (induction ws)
  case Nil
  then show ?case by (subst skip_ws.simps) (simp add: read_char_def)
next
  case (Cons w ws)
  from Cons.prems have w: "is_ws w" "w \<noteq> NUL" by (simp_all add: is_ws_not_NUL)
  with Cons show ?case by (subst skip_ws.simps) (simp add: read_char_def)
qed

lemma read_token_string_body:
  assumes "string_body s" "list_all is_ws ws"
  shows "read_token (at_input (ws @ QUOTE # s @ QUOTE # rest)) = Inr (string_token s, at_input rest)"
proof -
  have "skip_ws (at_input (ws @ CHR 0x22 # s @ QUOTE # rest)) = (CHR 0x22, at_input (s @ QUOTE # rest))"
    using assms(2) by (rule skip_ws_blanks) (simp_all add: special_chars)
  with after_quote_body [OF assms(1), of "[]" rest] show ?thesis
    by (simp add: read_token_def QUOTE_def mk_token_def string_token_def special_chars)
qed

lemma string_body_escape:
  "is_valid_escape e \<Longrightarrow> string_body s \<Longrightarrow> string_body (BACKSLASH # e # s)"
  by simp

lemma string_body_hex:
  "length hs = 4 \<Longrightarrow> list_all isxdigit hs \<Longrightarrow> string_body s
   \<Longrightarrow> string_body (BACKSLASH # CHR ''u'' # hs @ s)"
  by (simp add: is_valid_escape_def)

lemma string_body_char:
  "c \<noteq> NUL \<Longrightarrow> c \<noteq> CHR 0x22 \<Longrightarrow> c \<noteq> CHR 0x5C \<Longrightarrow> \<not> (of_char c :: nat) \<le> 0x1f
   \<Longrightarrow> string_body s \<Longrightarrow> string_body (c # s)"
  by (simp add: QUOTE_def BACKSLASH_def)

lemma string_body_append:
  "string_body s \<Longrightarrow> string_body s' \<Longrightarrow> string_body (s @ s')"
proof (induction s rule: string_body.induct)
  case 1
  then show ?case by simp
next
  case (2 c cs)
  show ?case
  proof (cases "c = BACKSLASH")
    case True
    with "2.prems" obtain e r where cs: "cs = e # r" by (cases cs) auto
    show ?thesis
    proof (cases "is_valid_escape e")
      case v: True
      with "2.prems" True cs "2.IH"(1) [OF True cs v] show ?thesis by simp
    next
      case nv: False
      with "2.prems" True cs have l: "4 \<le> length r" and sb: "string_body (drop 4 r)"
        by simp_all
      from "2.IH"(2) [OF True cs nv sb "2.prems"(2)] "2.prems" True cs nv l
      show ?thesis by simp
    qed
  next
    case False
    with "2.prems" "2.IH"(3) [OF False] show ?thesis by simp
  qed
qed

lemma next_token_simple_escape:
  assumes "string_body s" "string_body s'" "list_all is_ws ws" "is_valid_escape e"
  shows "next_token (at_input (ws @ QUOTE # s @ BACKSLASH # e # s' @ QUOTE # rest))
         = Inr (string_token (s @ BACKSLASH # e # s'), at_input rest)"
proof -
  have "string_body (s @ BACKSLASH # e # s')"
    using assms(1) string_body_escape [OF assms(4,2)] by (rule string_body_append)
  from read_token_string_body [OF this assms(3), of rest] show ?thesis
    by (simp add: next_token_at_input)
qed

lemma next_token_hex_escape:
  assumes "string_body s" "string_body s'" "list_all is_ws ws" "length hs = 4"
    "list_all isxdigit hs"
  shows "next_token (at_input (ws @ QUOTE # s @ BACKSLASH # CHR ''u'' # hs @ s' @ QUOTE # rest))
         = Inr (string_token (s @ BACKSLASH # CHR ''u'' # hs @ s'), at_input rest)"
proof -
  have "string_body (s @ BACKSLASH # CHR ''u'' # hs @ s')"
    using assms(1) string_body_hex [OF assms(4,5,2)] by (rule string_body_append)
  from read_token_string_body [OF this assms(3), of rest] show ?thesis
    by (simp add: next_token_at_input)
qed

lemma read_hex_text:
  "read_hex n b lx = Inr (b', lx') \<Longrightarrow> unread lx = NUL \<Longrightarrow>
   \<exists>s. b' = b @ s \<and> length s = n \<and> list_all isxdigit s"
proof (induction n arbitrary: b lx)
  case 0
  then show ?case by simp
next
  case (Suc n)
  obtain c lx1 where rc: "read_char lx = (c, lx1)" by (cases "read_char lx")
  with Suc.prems have x: "isxdigit c" and r: "read_hex n (b @ [c]) lx1 = Inr (b', lx')"
    by (auto split: if_splits)
  from read_char_input [OF rc isxdigit_not_NUL [OF x] Suc.prems(2)]
  have i: "unread lx1 = NUL" by simp
  from Suc.IH [OF r i] obtain s where "b' = (b @ [c]) @ s" "length s = n" "list_all isxdigit s"
    by blast
  with x have "b' = b @ (c # s) \<and> length (c # s) = Suc n \<and> list_all isxdigit (c # s)"
    by simp
  then show ?case by blast
qed

lemma after_slash_text:
  assumes "after_slash b lx = Inr (b', lx')" "unread lx = NUL"
  shows "\<exists>s. b' = b @ s \<and> (\<forall>r. string_body r \<longrightarrow> string_body (BACKSLASH # s @ r))"
proof -
  obtain c lx1 where rc: "read_char lx = (c, lx1)" by (cases "read_char lx")
  show ?thesis
  proof (cases "is_valid_escape c")
    case True
    with assms rc have "b' = b @ [c]"
      by (simp add: after_slash_def)
    with True have "b' = b @ [c] \<and> (\<forall>r. string_body r \<longrightarrow> string_body (BACKSLASH # [c] @ r))"
      by (simp add: string_body_escape del: string_body.simps)
    then show ?thesis by blast
  next
    case False
    with assms rc have u: "c = CHR ''u''"
      and r: "read_hex 4 (b @ [CHR ''u'']) lx1 = Inr (b', lx')"
      by (auto simp: after_slash_def split: if_splits)
    from u have "c \<noteq> NUL" by (simp add: NUL_def)
    from read_char_input [OF rc this assms(2)] have i: "unread lx1 = NUL" by simp
    from read_hex_text [OF r i] obtain hs where
      hs: "b' = (b @ [CHR ''u'']) @ hs" "length hs = 4" "list_all isxdigit hs"
      by blast
    have "string_body (BACKSLASH # (CHR ''u'' # hs) @ r)" if "string_body r" for r
      using string_body_hex [OF hs(2,3) that] by (simp del: string_body.simps)
    with hs(1) have "b' = b @ (CHR ''u'' # hs)
        \<and> (\<forall>r. string_body r \<longrightarrow> string_body (BACKSLASH # (CHR ''u'' # hs) @ r))"
      by (simp del: string_body.simps)
    then show ?thesis by blast
  qed
qed

lemma after_quote_text:
  "after_quote b lx = Inr (b', lx') \<Longrightarrow> unread lx = NUL \<Longrightarrow>
   \<exists>s. b' = b @ s \<and> string_body s"
proof (induction b lx rule: after_quote.induct)
  case (1 b lx)
  obtain c lx1 where rc: "read_char lx = (c, lx1)" by (cases "read_char lx")
  from "1.prems"(1) rc have nz: "c \<noteq> NUL"
    by (subst (asm) after_quote.simps) (auto split: if_splits)
  from read_char_input [OF rc nz "1.prems"(2)] have i: "unread lx1 = NUL" by simp
  show ?case
  proof (cases "c = CHR 0x22")
    case True
    with "1.prems"(1) rc nz have "b' = b"
      by (subst (asm) after_quote.simps) simp
    then have "b' = b @ [] \<and> string_body []" by simp
    then show ?thesis by blast
  next
    case nq: False
    show ?thesis
    proof (cases "c = CHR 0x5C")
      case True
      with "1.prems"(1) rc nz nq obtain b2 lx2 where
        sl: "after_slash (b @ [CHR 0x5C]) lx1 = Inr (b2, lx2)"
        and aq: "after_quote b2 lx2 = Inr (b', lx')"
        by (subst (asm) after_quote.simps) (auto split: sum.splits)
      from after_slash_input [OF sl i] have u2: "unread lx2 = NUL" by blast
      from after_slash_text [OF sl i] obtain s1 where
        s1: "b2 = (b @ [CHR 0x5C]) @ s1" "\<forall>r. string_body r \<longrightarrow> string_body (BACKSLASH # s1 @ r)"
        by blast
      from "1.IH"(1) [OF rc [symmetric] nz nq True sl refl aq u2]
      obtain s2 where s2: "b' = b2 @ s2" "string_body s2"
        by blast
      from s1 s2 have "b' = b @ (BACKSLASH # s1 @ s2) \<and> string_body (BACKSLASH # s1 @ s2)"
        by (simp add: BACKSLASH_def del: string_body.simps)
      then show ?thesis by blast
    next
      case nb: False
      with "1.prems"(1) rc nz nq have ctl: "\<not> (of_char c :: nat) \<le> 0x1f"
        and aq: "after_quote (b @ [c]) lx1 = Inr (b', lx')"
        by (subst (asm) after_quote.simps, auto split: if_splits)+
      from "1.IH"(2) [OF rc [symmetric] nz nq nb ctl aq i]
      obtain s2 where s2: "b' = (b @ [c]) @ s2" "string_body s2"
        by blast
      from s2 string_body_char [OF nz nq nb ctl s2(2)]
      have "b' = b @ (c # s2) \<and> string_body (c # s2)"
        by (simp del: string_body.simps)
      then show ?thesis by blast
    qed
  qed
qed

lemma read_token_string_text:
  assumes "read_token lx = Inr (t, lx')" "ttype t = T_STRING"
  shows "string_body (ttext t)"
proof -
  from read_token_string [OF assms] obtain lx1 where
    sk: "skip_ws lx = (QUOTE, lx1)" and aq: "after_quote [] lx1 = Inr (ttext t, lx')"
    by blast
  have "QUOTE \<noteq> NUL" by (simp add: QUOTE_def NUL_def)
  from skip_ws_stream [OF sk this] have "unread lx1 = NUL" by blast
  from after_quote_text [OF aq this] show ?thesis by simp
qed

lemma peek_token_string:
  assumes "string_body s" "list_all is_ws ws"
  shows "peek_token (at_input (ws @ QUOTE # s @ QUOTE # rest))
         = Inr (string_token s, \<lparr>input = rest, unread = NUL, peek = Some (string_token s)\<rparr>)"
  by (rule peek_token_at_input [OF read_token_string_body [OF assms]])

lemma run_collect_op_string:
  assumes "string_body s" "list_all is_ws ws"
    "lexer st = at_input (ws @ QUOTE # s @ QUOTE # rest)"
    "ti < length (tables st)" "col < length (newrow (tables st ! ti))"
  shows "run_collect_op n ti col st
         = Inr (st\<lparr>lexer := at_input rest,
                   tables := (tables st)[ti := add_value (tables st ! ti) col s]\<rparr>)"
  using assms(3-5)
  by (simp add: run_collect_op_def peek_token_string [OF assms(1,2)] next_token_peeked
      string_token_def is_literal_def)

lemma add_row_column_of:
  "add_row (add_value (column_of rs) 0 s) = column_of (rs @ (if s = [] then [] else [s]))"
  by (simp add: add_row_def add_value_def hasval_def column_of_def buf_len_def calloc_row_def)

lemma collect_string:
  assumes "string_body s"
  shows "run_collect_op n 0 0 \<lparr>lexer = at_input (QUOTE # s @ QUOTE # r), tables = [column_of rs], out = w\<rparr>
         = Inr \<lparr>lexer = at_input r, tables = [add_value (column_of rs) 0 s], out = w\<rparr>"
  using run_collect_op_string [OF assms, of "[]"
      "\<lparr>lexer = at_input (QUOTE # s @ QUOTE # r), tables = [column_of rs], out = w\<rparr>" r 0 0 n]
  by (simp add: column_of_def)

lemma strings_loop:
  "string_body s \<Longrightarrow> list_all string_body ss \<Longrightarrow>
   run_array_loop (Suc (Suc (length ss + m))) fieldsep (Some 0) (CollectOp 0 0)
     \<lparr>lexer = at_input (elements s ss), tables = [column_of rs], out = w\<rparr>
   = Inr \<lparr>lexer = at_input [],
          tables = [column_of (rs @ filter (\<lambda>s. s \<noteq> []) (s # ss))], out = w\<rparr>"
proof (induction ss arbitrary: s rs)
  case Nil
  then show ?case
    by (simp add: collect_string add_row_of_def add_row_column_of
        next_token_at_input read_token_cases)
next
  case (Cons s' ss)
  from Cons.prems have sb: "string_body s" "string_body s'" "list_all string_body ss"
    by simp_all
  have "run_array_loop (Suc (Suc (length (s' # ss) + m))) fieldsep (Some 0) (CollectOp 0 0)
          \<lparr>lexer = at_input (elements s (s' # ss)), tables = [column_of rs], out = w\<rparr>
        = run_array_loop (Suc (Suc (length ss + m))) fieldsep (Some 0) (CollectOp 0 0)
          \<lparr>lexer = at_input (elements s' ss),
           tables = [column_of (rs @ (if s = [] then [] else [s]))], out = w\<rparr>"
    by (subst run_array_loop.simps)
       (simp add: collect_string [OF sb(1)] add_row_of_def add_row_column_of
        next_token_at_input read_token_cases del: run_array_loop.simps)
  with Cons.IH [OF sb(2,3), of "rs @ (if s = [] then [] else [s])"] show ?case by simp
qed

lemma emit_row_column_of:
  "i < length rs \<Longrightarrow> emit_row fieldsep [column_of rs] (row_indices i [column_of rs]) = rs ! i @ [LF]"
  by (auto simp: emit_row_def emit_table_def emit_cell_def row_indices_def column_of_def
      nrows_def buf_str_def LF_def)

lemma product_lines_column_of:
  "product_lines fieldsep [column_of rs] (length rs) = concat (map (\<lambda>s. s @ [LF]) rs)"
proof -
  have "map (\<lambda>i. emit_row fieldsep [column_of rs] (row_indices i [column_of rs])) [0..<length rs]
        = map (\<lambda>i. rs ! i @ [LF]) [0..<length rs]"
    by (rule map_cong) (simp_all add: emit_row_column_of)
  also have "\<dots> = map (\<lambda>s. s @ [LF]) (map (nth rs) [0..<length rs])"
    by simp
  also have "\<dots> = map (\<lambda>s. s @ [LF]) rs"
    by (simp only: map_nth)
  finally show ?thesis by (simp add: product_lines_def)
qed

lemma flush_column_of:
  assumes "length rs < SIZE_MOD"
  shows "flush_tables fieldsep [column_of rs] w
         = ([column_of []], w @ concat (map (\<lambda>s. s @ [LF]) rs))"
proof (cases "rs = []")
  case True
  then show ?thesis
    by (simp add: flush_tables_eq has_rows_def reset_table_def column_of_def nrows_def)
next
  case False
  then have "row_product [column_of rs] = length rs"
    by (cases rs) (simp_all add: row_product_def column_of_def nrows_def)
  with assms False product_lines_column_of [of fieldsep rs] show ?thesis
    by (simp add: flush_tables_eq has_rows_def reset_table_def column_of_def nrows_def)
qed

lemma add_row_column_of_id: "add_row (column_of rs) = column_of rs"
  by (simp add: add_row_def hasval_def column_of_def buf_len_def)

lemma elements_quote: "\<exists>r. elements s ss = QUOTE # s @ QUOTE # r"
  by (cases ss) simp_all

lemma string_token_not_end: "ttype (string_token s) \<noteq> T_ENDARRAY"
  by (simp add: string_token_def)

lemma run_op_strings:
  assumes "string_body s" "list_all string_body ss" "length (s # ss) < SIZE_MOD"
  shows "run_op (Suc (Suc (Suc (length ss + m)))) fieldsep (ArrayOp (Some 0) (CollectOp 0 0) True)
           \<lparr>lexer = at_input (string_array s ss), tables = [column_of []], out = []\<rparr>
         = Inr \<lparr>lexer = at_input [], tables = [column_of []], out = lines_of (s # ss)\<rparr>"
proof -
  let ?st = "\<lparr>lexer = at_input (elements s ss), tables = [column_of []], out = []\<rparr>"
  let ?rs = "filter (\<lambda>s. s \<noteq> []) (s # ss)"
  obtain r where r: "elements s ss = QUOTE # s @ QUOTE # r"
    using elements_quote by blast
  have pk: "peek_token (at_input (elements s ss))
            = Inr (string_token s, \<lparr>input = r, unread = NUL, peek = Some (string_token s)\<rparr>)"
    unfolding r using peek_token_string [OF assms(1), of "[]" r] by simp
  have "run_array_loop (Suc (Suc (length ss + m))) fieldsep (Some 0) (CollectOp 0 0)
          (?st\<lparr>lexer := \<lparr>input = r, unread = NUL, peek = Some (string_token s)\<rparr>\<rparr>)
        = run_array_loop (Suc (Suc (length ss + m))) fieldsep (Some 0) (CollectOp 0 0)
          (?st\<lparr>lexer := at_input (elements s ss)\<rparr>)"
    by (rule run_array_loop_peeked [OF pk])
  then have loop:
    "run_array_loop (Suc (Suc (length ss + m))) fieldsep (Some 0) (CollectOp 0 0)
       \<lparr>lexer = \<lparr>input = r, unread = NUL, peek = Some (string_token s)\<rparr>,
        tables = [column_of []], out = []\<rparr>
     = Inr \<lparr>lexer = at_input [], tables = [column_of ?rs], out = []\<rparr>"
    using strings_loop [OF assms(1,2), of m fieldsep "[]" "[]"]
    by (simp del: run_array_loop.simps)
  have "length ?rs \<le> length (s # ss)" by (rule length_filter_le)
  with assms(3) have "length ?rs < SIZE_MOD" by simp
  from flush_column_of [OF this, of fieldsep "[]"]
  have fl: "flush_tables fieldsep [column_of ?rs] [] = ([column_of []], lines_of (s # ss))"
    by (simp add: lines_of_def)
  show ?thesis
    by (simp add: string_array_def peek_token_at_input [OF read_token_cases(4)]
        accept_def next_token_peeked pk loop string_token_not_end
        add_row_of_def add_row_column_of_id flush_if_def fl
        del: run_array_loop.simps filter.simps)
qed

lemma parse_star_column: "parse_pattern ''[*]'' = Inr (ArrayOp (Some 0) (CollectOp 0 0) False, [column_of []])"
  by (simp add: parse_star one_column_def column_of_def)

lemma jl_strings:
  assumes "string_body s" "list_all string_body ss" "length (s # ss) < SIZE_MOD"
  shows "jl (length ss + m + 4) fieldsep ''[*]'' (string_array s ss) = Inr (lines_of (s # ss))"
proof -
  have f: "length ss + m + 4 = Suc (Suc (Suc (Suc (length ss + m))))" by simp
  have "main_loop (Suc (Suc (Suc (Suc (length ss + m))))) fieldsep
          (ArrayOp (Some 0) (CollectOp 0 0) True)
          \<lparr>lexer = at_input (string_array s ss), tables = [column_of []], out = []\<rparr>
        = Inr \<lparr>lexer = \<lparr>input = [], unread = NUL, peek = Some eof_token\<rparr>,
                tables = [column_of []], out = lines_of (s # ss)\<rparr>"
    by (subst main_loop.simps)
       (simp add: run_op_strings [OF assms] peek_token_at_input [OF read_token_cases(5)]
        eof_token_def del: run_op.simps main_loop.simps)
  then show ?thesis
    unfolding f by (simp add: jl_def parse_star_column init_state_def init_lexer_def
        del: main_loop.simps)
qed

lemma read_token_object_cases:
  "read_token (at_input (CHR ''{'' # r)) = Inr (\<lparr>ttype = T_BEGINOBJECT, ttext = ''{''\<rparr>, at_input r)"
  "read_token (at_input (CHR ''}'' # r)) = Inr (\<lparr>ttype = T_ENDOBJECT, ttext = ''}''\<rparr>, at_input r)"
  "read_token (at_input (CHR '':'' # r)) = Inr (\<lparr>ttype = T_PAIRSEP, ttext = '':''\<rparr>, at_input r)"
  by (simp_all add: rec_simps lex_defs)

lemma read_token_name:
  "read_token (at_input (QUOTE # CHR ''a'' # QUOTE # r)) = Inr (string_token ''a'', at_input r)"
  "read_token (at_input (QUOTE # CHR ''b'' # QUOTE # r)) = Inr (string_token ''b'', at_input r)"
  using read_token_string_body [of "''a''" "[]" r] read_token_string_body [of "''b''" "[]" r]
  by (simp_all add: QUOTE_def BACKSLASH_def NUL_def)

lemma parse_ab:
  "parse_pattern s2_pattern =
     Inr (ObjectOp (Some 0) [(''b'', CollectOp 0 (Suc 0)), (''a'', CollectOp 0 0)] False,
          [two_columns None None])"
  by (simp add: s2_pattern_def two_columns_def jl_eval numeral_2_eq_2 cong: weak_congs)

lemma add_value_two_columns:
  "add_value (two_columns None b) 0 s = two_columns (cell s) b"
  "add_value (two_columns a None) (Suc 0) s = two_columns a (cell s)"
  by (simp_all add: add_value_def two_columns_def cell_def buf_len_def)

lemma two_columns_sel:
  "newrow (two_columns a b) = [a, b]" "ncols (two_columns a b) = 2" "rows (two_columns a b) = []"
  by (simp_all add: two_columns_def)

lemma object_loop_ab:
  assumes "string_body s" "string_body s'"
  shows "run_object_loop (Suc (Suc (Suc m))) fieldsep
           [(''b'', CollectOp 0 (Suc 0)), (''a'', CollectOp 0 0)] (string_token ''a'')
           \<lparr>lexer = at_input (CHR '':'' # QUOTE # s @ QUOTE # CHR '','' #
               QUOTE # CHR ''b'' # QUOTE # CHR '':'' # QUOTE # s' @ [QUOTE, CHR ''}'']),
            tables = [two_columns None None], out = []\<rparr>
         = Inr (\<lparr>ttype = T_ENDOBJECT, ttext = ''}''\<rparr>,
                \<lparr>lexer = at_input [], tables = [two_columns (cell s) (cell s')], out = []\<rparr>)"
  by (simp add: accept_def next_token_def peek_token_def read_token_object_cases
      read_token_cases(2) read_token_name
      read_token_string_body [OF assms(1), of "[]", simplified]
      read_token_string_body [OF assms(2), of "[]", simplified]
      run_collect_op_def string_token_def is_literal_def two_columns_sel
      add_value_two_columns)

lemma flush_two_columns:
  "flush_tables fieldsep [add_row (two_columns (cell s) (cell s'))] []
   = ([two_columns None None], row_ab fieldsep s s')"
  by (simp add: flush_tables_eq has_rows_def row_product_def product_lines_def row_indices_def
      row_ab_def cell_def two_columns_def tab_defs LF_def numeral_2_eq_2)

lemma run_op_object_ab:
  assumes "string_body s" "string_body s'"
  shows "run_op (Suc (Suc (Suc (Suc m)))) fieldsep
           (ObjectOp (Some 0) [(''b'', CollectOp 0 (Suc 0)), (''a'', CollectOp 0 0)] True)
           \<lparr>lexer = at_input (object_ab s s'), tables = [two_columns None None], out = []\<rparr>
         = Inr \<lparr>lexer = at_input [], tables = [two_columns None None],
                out = row_ab fieldsep s s'\<rparr>"
  by (subst run_op.simps)
     (simp add: object_ab_def peek_token_at_input [OF read_token_object_cases(1)]
      accept_def next_token_peeked next_token_at_input read_token_name
      object_loop_ab [OF assms, unfolded string_token_def] string_token_def
      add_row_of_def flush_if_def flush_two_columns
      del: run_object_loop.simps run_op.simps)

lemma jl_object_ab:
  assumes "string_body s" "string_body s'"
  shows "jl (m + 5) fieldsep s2_pattern (object_ab s s') = Inr (row_ab fieldsep s s')"
proof -
  have f: "m + 5 = Suc (Suc (Suc (Suc (Suc m))))" by simp
  have "main_loop (Suc (Suc (Suc (Suc (Suc m))))) fieldsep
          (ObjectOp (Some 0) [(''b'', CollectOp 0 (Suc 0)), (''a'', CollectOp 0 0)] True)
          \<lparr>lexer = at_input (object_ab s s'), tables = [two_columns None None], out = []\<rparr>
        = Inr \<lparr>lexer = \<lparr>input = [], unread = NUL, peek = Some eof_token\<rparr>,
                tables = [two_columns None None], out = row_ab fieldsep s s'\<rparr>"
    by (subst main_loop.simps)
       (simp add: run_op_object_ab [OF assms] peek_token_at_input [OF read_token_cases(5)]
        eof_token_def del: run_op.simps main_loop.simps)
  then show ?thesis
    unfolding f by (simp add: jl_def parse_ab init_state_def init_lexer_def
        del: main_loop.simps)
qed

lemma peek_token_cached:
  assumes "peek_token lx = Inr (t, lx1)"
  shows "next_token lx1 = Inr (t, lx1\<lparr>peek := None\<rparr>)"
  using assms
  by (auto simp: peek_token_def next_token_def split: option.splits sum.splits)

lemma run_collect_op_string_token:
  assumes "peek_token (lexer st) = Inr (t, lx1)" "ttype t = T_STRING"
    "ti < length (tables st)" "col < length (newrow (tables st ! ti))"
  shows "run_collect_op n ti col st
         = Inr (st\<lparr>lexer := lx1\<lparr>peek := None\<rparr>,
                   tables := (tables st)[ti := add_value (tables st ! ti) col (ttext t)]\<rparr>)"
  using assms(2-4)
  by (simp add: run_collect_op_def assms(1) peek_token_cached [OF assms(1)] is_literal_def)

lemma string_body_unique:
  assumes "string_body s" "string_body s2" "s @ QUOTE # rest = s2 @ QUOTE # rest2"
  shows "s2 = s \<and> rest2 = rest"
proof -
  have "read_token (at_input (QUOTE # s @ QUOTE # rest)) = Inr (string_token s, at_input rest)"
    using read_token_string_body [OF assms(1), of "[]" rest] by simp
  then have "read_token (at_input (QUOTE # s2 @ QUOTE # rest2)) = Inr (string_token s, at_input rest)"
    by (simp only: assms(3))
  moreover
  have "read_token (at_input (QUOTE # s2 @ QUOTE # rest2)) = Inr (string_token s2, at_input rest2)"
    using read_token_string_body [OF assms(2), of "[]" rest2] by simp
  ultimately have "Inr (string_token s, at_input rest) = Inr (string_token s2, at_input rest2)"
    by simp
  then show ?thesis
    by (simp add: string_token_def)
qed

text \<open>
  Claim C6. A string body is a text without control character in which every backslash
  starts an escape (a simple one, or \<^verbatim>\<open>u\<close> and four hexadecimal digits) and every quote is
  part of one. After blanks, an opening quote and a string body, the next quote closes the
  string: the token has the string body as its text, byte for byte, and the lexer stands
  behind that quote, whatever follows; no other split of the input at a quote gives a
  string body. In particular a simple escape between two string bodies adds its two
  bytes to the text, and \<^verbatim>\<open>\u\<close> with four hexadecimal digits its six bytes. Every string
  token of the lexer is read this way. A Collect on a string token stores exactly the
  text of the token in its cell. With pattern \<^verbatim>\<open>[*]\<close>, an array of strings comes out as one
  line for every string that is not empty, with exactly the bytes of its string body
  (for fewer than \<open>2 ^ 64\<close> strings, the bound of the row count); with pattern \<^verbatim>\<open>{a,b}\<close>,
  the two strings of an object come out as the two cells of one line, with the field
  separator between them, unless both are empty.
\<close>

theorem string_lexeme_emitted:
  assumes "string_body s" "string_body s'" "list_all string_body ss" "list_all is_ws ws"
    "length (s # ss) < SIZE_MOD"
  shows "next_token (at_input (ws @ QUOTE # s @ QUOTE # rest)) = Inr (string_token s, at_input rest)
     \<and> (string_body s2 \<and> s @ QUOTE # rest = s2 @ QUOTE # rest2 \<longrightarrow> s2 = s \<and> rest2 = rest)
     \<and> (is_valid_escape e \<longrightarrow>
          next_token (at_input (ws @ QUOTE # s @ BACKSLASH # e # s' @ QUOTE # rest))
            = Inr (string_token (s @ BACKSLASH # e # s'), at_input rest))
     \<and> (length hs = 4 \<and> list_all isxdigit hs \<longrightarrow>
          next_token (at_input (ws @ QUOTE # s @ BACKSLASH # CHR ''u'' # hs @ s' @ QUOTE # rest))
            = Inr (string_token (s @ BACKSLASH # CHR ''u'' # hs @ s'), at_input rest))
     \<and> (read_token lx = Inr (t, lx') \<and> ttype t = T_STRING \<longrightarrow>
          string_body (ttext t)
          \<and> (\<exists>bl. list_all is_ws bl \<and> stream lx = bl @ QUOTE # ttext t @ QUOTE # stream lx'))
     \<and> (peek_token (lexer st) = Inr (tk, lx1) \<and> ttype tk = T_STRING \<and> ti < length (tables st)
          \<and> col < length (newrow (tables st ! ti)) \<longrightarrow>
          run_collect_op n ti col st
            = Inr (st\<lparr>lexer := lx1\<lparr>peek := None\<rparr>,
                      tables := (tables st)[ti := add_value (tables st ! ti) col (ttext tk)]\<rparr>)
          \<and> buf_str (newrow (add_value (tables st ! ti) col (ttext tk)) ! col) = ttext tk)
     \<and> jl (length ss + m + 4) fieldsep ''[*]'' (string_array s ss) = Inr (lines_of (s # ss))
     \<and> jl (m + 5) fieldsep s2_pattern (object_ab s s') = Inr (row_ab fieldsep s s')"
proof -
  have a: "next_token (at_input (ws @ QUOTE # s @ QUOTE # rest)) = Inr (string_token s, at_input rest)"
    using read_token_string_body [OF assms(1,4)] by (simp add: next_token_at_input)
  have b: "string_body s2 \<and> s @ QUOTE # rest = s2 @ QUOTE # rest2 \<longrightarrow> s2 = s \<and> rest2 = rest"
    using string_body_unique [OF assms(1)] by blast
  have b1: "is_valid_escape e \<longrightarrow>
          next_token (at_input (ws @ QUOTE # s @ BACKSLASH # e # s' @ QUOTE # rest))
            = Inr (string_token (s @ BACKSLASH # e # s'), at_input rest)"
    using next_token_simple_escape [OF assms(1,2,4)] by blast
  have b2: "length hs = 4 \<and> list_all isxdigit hs \<longrightarrow>
          next_token (at_input (ws @ QUOTE # s @ BACKSLASH # CHR ''u'' # hs @ s' @ QUOTE # rest))
            = Inr (string_token (s @ BACKSLASH # CHR ''u'' # hs @ s'), at_input rest)"
    using next_token_hex_escape [OF assms(1,2,4)] by blast
  have c: "read_token lx = Inr (t, lx') \<and> ttype t = T_STRING \<longrightarrow>
          string_body (ttext t)
          \<and> (\<exists>bl. list_all is_ws bl \<and> stream lx = bl @ QUOTE # ttext t @ QUOTE # stream lx')"
    using read_token_string_text [of lx t lx'] read_token_string_stream [of lx t lx'] by blast
  have d: "peek_token (lexer st) = Inr (tk, lx1) \<and> ttype tk = T_STRING \<and> ti < length (tables st)
          \<and> col < length (newrow (tables st ! ti)) \<longrightarrow>
          run_collect_op n ti col st
            = Inr (st\<lparr>lexer := lx1\<lparr>peek := None\<rparr>,
                      tables := (tables st)[ti := add_value (tables st ! ti) col (ttext tk)]\<rparr>)
          \<and> buf_str (newrow (add_value (tables st ! ti) col (ttext tk)) ! col) = ttext tk"
    using run_collect_op_string_token [of st tk lx1 ti col n]
      add_value_cell [of col "tables st ! ti" "ttext tk"] by blast
  note j1 = jl_strings [OF assms(1,3,5), of m fieldsep]
  note j2 = jl_object_ab [OF assms(1,2), of m fieldsep]
  show ?thesis
    by (intro conjI) (rule a b b1 b2 c d j1 j2)+
qed

theorem string_lexeme_emitted_witness:
  "string_body escaped_text \<and> string_body ''x'' \<and> list_all string_body [[], ''c'']
   \<and> list_all is_ws '' '' \<and> length (escaped_text # [[], ''c'']) < SIZE_MOD
   \<and> escaped_text = [CHR ''a'', BACKSLASH, QUOTE, CHR ''b'', BACKSLASH, CHR ''u'', CHR ''0'',
        CHR ''0'', CHR ''4'', CHR ''1'', BACKSLASH, CHR ''n'']
   \<and> next_token (at_input ('' '' @ QUOTE # escaped_text @ QUOTE # '',1''))
       = Inr (string_token escaped_text, at_input '',1'')
   \<and> is_valid_escape (CHR ''n'') \<and> length ''0041'' = 4 \<and> list_all isxdigit ''0041''
   \<and> next_token (at_input ('' '' @ QUOTE # escaped_text @ BACKSLASH # CHR ''n'' # ''x'' @ QUOTE # '',1''))
       = Inr (string_token (escaped_text @ BACKSLASH # CHR ''n'' # ''x''), at_input '',1'')
   \<and> next_token (at_input ('' '' @ QUOTE # escaped_text @ BACKSLASH # CHR ''u'' # ''0041'' @ ''x''
                      @ QUOTE # '',1''))
       = Inr (string_token (escaped_text @ BACKSLASH # CHR ''u'' # ''0041'' @ ''x''), at_input '',1'')
   \<and> read_token (at_input ('' '' @ QUOTE # escaped_text @ QUOTE # '',1''))
       = Inr (string_token escaped_text, at_input '',1'')
   \<and> ttype (string_token escaped_text) = T_STRING
   \<and> (\<exists>bl. list_all is_ws bl
          \<and> stream (at_input ('' '' @ QUOTE # escaped_text @ QUOTE # '',1''))
              = bl @ QUOTE # ttext (string_token escaped_text) @ QUOTE # stream (at_input '',1''))
   \<and> peek_token (at_input ('' '' @ QUOTE # escaped_text @ QUOTE # '',1''))
       = Inr (string_token escaped_text,
              \<lparr>input = '',1'', unread = NUL, peek = Some (string_token escaped_text)\<rparr>)
   \<and> run_collect_op 0 0 0
         \<lparr>lexer = at_input ('' '' @ QUOTE # escaped_text @ QUOTE # '',1''),
          tables = [one_column], out = []\<rparr>
       = Inr \<lparr>lexer = at_input '',1'',
              tables = [\<lparr>ncols = 1, rows = [], newrow = [Some escaped_text]\<rparr>], out = []\<rparr>
   \<and> string_array escaped_text [[], ''c'']
       = ''['' @ QUOTE # escaped_text @ QUOTE # '','' @ QUOTE # QUOTE # '','' @ QUOTE # ''c'' @ QUOTE # '']''
   \<and> jl 6 [TAB] ''[*]'' (string_array escaped_text [[], ''c''])
       = Inr (escaped_text @ [LF] @ ''c'' @ [LF])
   \<and> jl 5 [TAB] s2_pattern (object_ab escaped_text ''x'')
       = Inr (escaped_text @ [TAB] @ ''x'' @ [LF])"
proof -
  let ?lx = "at_input ('' '' @ QUOTE # escaped_text @ QUOTE # '',1'')"
  let ?st = "\<lparr>lexer = ?lx, tables = [one_column], out = []\<rparr>"
  have h: "string_body escaped_text" "string_body ''x''" "list_all string_body [[], ''c'']"
    "list_all is_ws '' ''" "length (escaped_text # [[], ''c'']) < SIZE_MOD"
    by (simp_all add: escaped_text_def QUOTE_def BACKSLASH_def NUL_def is_valid_escape_def
        isxdigit_def is_ws_def SIZE_MOD_def)
  have e: "escaped_text = [CHR ''a'', BACKSLASH, QUOTE, CHR ''b'', BACKSLASH, CHR ''u'', CHR ''0'',
        CHR ''0'', CHR ''4'', CHR ''1'', BACKSLASH, CHR ''n'']"
    by (simp add: escaped_text_def)
  note th = string_lexeme_emitted [where s = escaped_text and s' = "''x''" and ss = "[[], ''c'']"
      and ws = "'' ''" and rest = "'',1''" and ?s2.0 = escaped_text and ?rest2.0 = "'',1''"
      and e = "CHR ''n''" and hs = "''0041''"
      and lx = ?lx and t = "string_token escaped_text" and lx' = "at_input '',1''"
      and tk = "string_token escaped_text"
      and ?lx1.0 = "\<lparr>input = '',1'', unread = NUL, peek = Some (string_token escaped_text)\<rparr>"
      and st = ?st and ti = 0 and col = 0 and n = 0 and m = 0 and fieldsep = "[TAB]", OF h]
  from th have nt: "next_token ?lx = Inr (string_token escaped_text, at_input '',1'')"
    by (rule conjunct1)
  then have rt: "read_token ?lx = Inr (string_token escaped_text, at_input '',1'')"
    by (simp add: next_token_def)
  have ty: "ttype (string_token escaped_text) = T_STRING"
    by (simp add: string_token_def)
  have x: "is_valid_escape (CHR ''n'')" "length ''0041'' = 4" "list_all isxdigit ''0041''"
    by (simp_all add: is_valid_escape_def isxdigit_def)
  from th x have esc:
    "next_token (at_input ('' '' @ QUOTE # escaped_text @ BACKSLASH # CHR ''n'' # ''x'' @ QUOTE # '',1''))
       = Inr (string_token (escaped_text @ BACKSLASH # CHR ''n'' # ''x''), at_input '',1'')"
    "next_token (at_input ('' '' @ QUOTE # escaped_text @ BACKSLASH # CHR ''u'' # ''0041'' @ ''x''
                      @ QUOTE # '',1''))
       = Inr (string_token (escaped_text @ BACKSLASH # CHR ''u'' # ''0041'' @ ''x''), at_input '',1'')"
    by (simp_all only: simp_thms)
  have sa: "string_array escaped_text [[], ''c'']
       = ''['' @ QUOTE # escaped_text @ QUOTE # '','' @ QUOTE # QUOTE # '','' @ QUOTE # ''c'' @ QUOTE # '']''"
    by (simp add: string_array_def)
  have pk: "peek_token ?lx
       = Inr (string_token escaped_text,
              \<lparr>input = '',1'', unread = NUL, peek = Some (string_token escaped_text)\<rparr>)"
    using rt by (rule peek_token_at_input)
  have c: "0 < length (tables ?st)" "0 < length (newrow (tables ?st ! 0))"
    "lexer ?st = ?lx"
    by (simp_all add: one_column_def)
  have av: "add_value one_column 0 escaped_text = \<lparr>ncols = 1, rows = [], newrow = [Some escaped_text]\<rparr>"
    by (simp add: add_value_def one_column_def buf_len_def e)
  have l: "lines_of (escaped_text # [[], ''c'']) = escaped_text @ [LF] @ ''c'' @ [LF]"
    by (simp add: lines_of_def e)
  have r: "row_ab [TAB] escaped_text ''x'' = escaped_text @ [TAB] @ ''x'' @ [LF]"
    by (simp add: row_ab_def)
  from th rt ty c pk have
    "\<exists>bl. list_all is_ws bl
          \<and> stream ?lx = bl @ QUOTE # ttext (string_token escaped_text) @ QUOTE # stream (at_input '',1'')"
    "run_collect_op 0 0 0 ?st
       = Inr \<lparr>lexer = at_input '',1'',
              tables = [\<lparr>ncols = 1, rows = [], newrow = [Some escaped_text]\<rparr>], out = []\<rparr>"
    "jl 6 [TAB] ''[*]'' (string_array escaped_text [[], ''c''])
       = Inr (escaped_text @ [LF] @ ''c'' @ [LF])"
    "jl 5 [TAB] s2_pattern (object_ab escaped_text ''x'')
       = Inr (escaped_text @ [TAB] @ ''x'' @ [LF])"
    by (simp_all add: av l r string_token_def [of escaped_text] del: string_body.simps)
  with h e nt rt ty sa pk x esc show ?thesis
    by (simp only: simp_thms)
qed

end
